theory Spec2Isabelle
  imports Main "HOL-Library.Sublist" "HOL-Library.AList"
begin

section \<open>PromptTags: the data model of \<open>src/main.py\<close>\<close>

text \<open>
  Python text is modelled as \<^typ>\<open>string\<close>; a \<^typ>\<open>char\<close> stands for one code point
  below 256. Python's \<open>sub in text\<close> on two strings is the contiguous-substring test,
  which is \<^const>\<open>sublist\<close>.
\<close>

abbreviation NL :: char where "NL \<equiv> CHR 0x0A"

abbreviation LT :: char where "LT \<equiv> CHR ''<''"

abbreviation GT :: char where "GT \<equiv> CHR ''>''"

abbreviation SLASH :: char where "SLASH \<equiv> CHR ''/''"

abbreviation BACKSLASH :: char where "BACKSLASH \<equiv> CHR 0x5C"

text \<open>
  The characters \<open>str.strip()\<close> removes: those for which \<open>str.isspace\<close> holds, here
  the ones below 256 (tab, line feed, vertical tab, form feed, carriage return, the four
  separators 0x1C..0x1F, space, NEL and the no-break space).
\<close>

definition is_space :: "char \<Rightarrow> bool" where
  "is_space c = (c \<in> {CHR 0x09, CHR 0x0A, CHR 0x0B, CHR 0x0C, CHR 0x0D, CHR 0x1C, CHR 0x1D,
                       CHR 0x1E, CHR 0x1F, CHR 0x20, CHR 0x85, CHR 0xA0})"

definition strip :: "string \<Rightarrow> string" where
  "strip s = rev (dropWhile is_space (rev (dropWhile is_space s)))"

text \<open>\<open>sep.join(xs)\<close>.\<close>

fun join :: "string \<Rightarrow> string list \<Rightarrow> string" where
  "join sep [] = []"
| "join sep [x] = x"
| "join sep (x # y # ys) = x @ sep @ join sep (y # ys)"

text \<open>\<open>s or ""\<close> on an optional string.\<close>

definition or_empty :: "string option \<Rightarrow> string" where
  "or_empty v = (case v of None \<Rightarrow> [] | Some s \<Rightarrow> s)"

text \<open>
  The values a conversation history can hold: JSON-like Python values. A dict is an
  association list in insertion order; \<open>d.get(k)\<close> is \<^const>\<open>map_of\<close> and
  \<open>d[k] = v\<close> on a copy is \<^const>\<open>AList.update\<close>.
\<close>

datatype pyval =
    PNone
  | PBool bool
  | PInt int
  | PStr string
  | PList "pyval list"
  | PDict "(string \<times> pyval) list"

text \<open>One loaded tag: the dict appended to \<open>self._tags\<close> in \<open>_load_tags\<close>.\<close>

record tag =
  slot :: string
  tag_name :: string
  content :: string
  position :: string
  header :: string
  footer :: string

text \<open>
  The request object: \<open>req.system_prompt\<close>, \<open>req.prompt\<close> and \<open>req.contexts\<close>. Every
  other field of the host's request lives in the record's extension part.
\<close>

record req =
  system_prompt :: "string option"
  prompt :: "string option"
  contexts :: "pyval list"

section \<open>Configuration loading: \<open>_load_tags\<close>\<close>

text \<open>A configuration value of a slot: a boolean or a string.\<close>

datatype cfgval = CBool bool | CStr string

text \<open>An entry of the plugin configuration: a dict (a slot) or some value that is no dict.\<close>

datatype cfgentry = CSlot "(string \<times> cfgval) list" | CNoDict

definition truthy :: "cfgval \<Rightarrow> bool" where
  "truthy v = (case v of CBool b \<Rightarrow> b | CStr s \<Rightarrow> s \<noteq> [])"

definition py_str :: "cfgval \<Rightarrow> string" where
  "py_str v = (case v of CBool b \<Rightarrow> (if b then ''True'' else ''False'') | CStr s \<Rightarrow> s)"

definition MAX_TAGS :: nat where
  "MAX_TAGS = 5"

definition TAG_SLOT_KEYS :: "string list" where
  "TAG_SLOT_KEYS = [''tag_1'', ''tag_2'', ''tag_3'', ''tag_4'', ''tag_5'']"

text \<open>The character class \<open>[A-Za-z0-9_-]\<close>.\<close>

definition name_char :: "char \<Rightarrow> bool" where
  "name_char c = (let n = (of_char c :: nat) in
     (65 \<le> n \<and> n \<le> 90) \<or> (97 \<le> n \<and> n \<le> 122) \<or> (48 \<le> n \<and> n \<le> 57)
     \<or> c = CHR ''_'' \<or> c = CHR ''-'')"

text \<open>
  \<open>TAG_NAME_PATTERN.match(s)\<close> for \<open>^[A-Za-z0-9_-]+$\<close>: a non-empty run of name
  characters from the start, after which the text ends; \<open>$\<close> also matches just before
  one final line feed.
\<close>

definition TAG_NAME_PATTERN_match :: "string \<Rightarrow> bool" where
  "TAG_NAME_PATTERN_match s =
     (takeWhile name_char s \<noteq> [] \<and>
      (dropWhile name_char s = [] \<or> dropWhile name_char s = [NL]))"

text \<open>\<open>content.replace("\\n", "\n")\<close>: every backslash followed by \<open>n\<close> becomes a line feed.\<close>

fun replace_escaped_newline :: "string \<Rightarrow> string" where
  "replace_escaped_newline (a # b # cs) =
     (if a = BACKSLASH \<and> b = CHR ''n'' then NL # replace_escaped_newline cs
      else a # replace_escaped_newline (b # cs))"
| "replace_escaped_newline cs = cs"

definition recognized_positions :: "string list" where
  "recognized_positions = [''user_message_before'', ''user_message_after'', ''system_prompt'']"

text \<open>
  One iteration of the loop of \<open>_load_tags\<close>: \<open>None\<close> is a \<open>continue\<close> (the slot is
  skipped), \<open>Some t\<close> the dict that is appended.
\<close>

definition load_slot :: "string \<Rightarrow> cfgentry option \<Rightarrow> tag option" where
  "load_slot slot_key entry =
     (case entry of
        Some CNoDict \<Rightarrow> None
      | _ \<Rightarrow>
        (let d = (case entry of Some (CSlot d) \<Rightarrow> d | _ \<Rightarrow> []);
             enabled = (case map_of d ''enabled'' of None \<Rightarrow> False | Some v \<Rightarrow> truthy v)
         in if \<not> enabled then None
            else
              let name = strip (py_str (case map_of d ''tag_name'' of None \<Rightarrow> CStr [] | Some v \<Rightarrow> v));
                  cont0 = py_str (case map_of d ''content'' of None \<Rightarrow> CStr [] | Some v \<Rightarrow> v);
                  cont = strip (replace_escaped_newline cont0);
                  pos0 = strip (py_str (case map_of d ''injection_position'' of
                                         None \<Rightarrow> CStr ''user_message_after'' | Some v \<Rightarrow> v))
              in if name = [] then None
                 else if \<not> TAG_NAME_PATTERN_match name then None
                 else if cont = [] then None
                 else
                   let pos = (if pos0 \<notin> set recognized_positions
                              then ''user_message_after'' else pos0)
                   in Some \<lparr> slot = slot_key, tag_name = name, content = cont, position = pos,
                             header = [LT] @ name @ [GT],
                             footer = [LT, SLASH] @ name @ [GT] \<rparr>))"

definition load_tags :: "(string \<times> cfgentry) list \<Rightarrow> tag list" where
  "load_tags config = List.map_filter (\<lambda>k. load_slot k (map_of config k)) TAG_SLOT_KEYS"

section \<open>Formatting: \<open>_format_tag\<close>\<close>

definition format_tag :: "tag \<Rightarrow> string" where
  "format_tag t = header t @ [NL] @ content t @ [NL] @ footer t @ [NL]"

section \<open>Cleanup: \<open>_build_cleanup_pattern\<close>, \<open>_clean_string\<close>, \<open>_remove_tags_from_context\<close>\<close>

text \<open>
  The compiled pattern \<open>re.escape(header) + ".*?" + re.escape(footer)\<close> with
  \<open>re.DOTALL\<close>: the literal header, the shortest run of any characters, the literal
  footer.
\<close>

datatype pattern = LazySpan string string

definition build_cleanup_pattern :: "tag \<Rightarrow> pattern" where
  "build_cleanup_pattern t = LazySpan (header t) (footer t)"

text \<open>The text after the first occurrence of \<open>w\<close> in \<open>s\<close>, if \<open>w\<close> occurs.\<close>

fun find_after :: "string \<Rightarrow> string \<Rightarrow> string option" where
  "find_after w [] = (if w = [] then Some [] else None)"
| "find_after w (c # cs) =
     (if prefix w (c # cs) then Some (drop (length w) (c # cs)) else find_after w cs)"

text \<open>
  A match attempt of the pattern at the start of \<open>s\<close>: the header must be there, and
  the lazy \<open>.*?\<close> stops at the first footer after it. The result is the text after the
  match.
\<close>

fun match_at :: "pattern \<Rightarrow> string \<Rightarrow> string option" where
  "match_at (LazySpan h f) s =
     (if prefix h s then find_after f (drop (length h) s) else None)"

text \<open>
  \<open>pattern.sub("", text)\<close>: scanning from the left, the first position where the pattern
  matches is found, the match is deleted and the scan goes on after it; a character at
  which no match starts is kept. An empty match deletes nothing and the scan moves on by
  one character.
\<close>

fun re_sub_empty :: "pattern \<Rightarrow> string \<Rightarrow> string" where
  "re_sub_empty p [] = []"
| "re_sub_empty p (c # cs) =
     (case match_at p (c # cs) of
        None \<Rightarrow> c # re_sub_empty p cs
      | Some rest \<Rightarrow>
          if length rest < length (c # cs) then re_sub_empty p rest
          else c # re_sub_empty p cs)"

text \<open>
  \<open>re.sub(r"\n{3,}", "\n\n", s)\<close>: a maximal run of three or more line feeds becomes
  two; shorter runs stay.
\<close>

function collapse_newlines :: "string \<Rightarrow> string" where
  "collapse_newlines [] = []"
| "collapse_newlines (c # cs) =
     (if c = NL \<and> 2 \<le> length (takeWhile (\<lambda>x. x = NL) cs)
      then NL # NL # collapse_newlines (dropWhile (\<lambda>x. x = NL) cs)
      else c # collapse_newlines cs)"
  by pat_completeness auto
termination
  by (relation "measure length") (auto simp: length_dropWhile_le less_Suc_eq_le)

definition clean_string :: "string \<Rightarrow> pattern \<Rightarrow> string" where
  "clean_string text p = strip (collapse_newlines (re_sub_empty p text))"

text \<open>
  The treatment of \<open>req.system_prompt\<close> and of \<open>req.prompt\<close> (the same code twice): the
  new field and the increment of \<open>removed\<close>.
\<close>

definition clean_prompt_field :: "tag \<Rightarrow> string option \<Rightarrow> string option \<times> nat" where
  "clean_prompt_field t fld =
     (case fld of
        None \<Rightarrow> (None, 0)
      | Some original \<Rightarrow>
          if original \<noteq> [] \<and> sublist (header t) original \<and> sublist (footer t) original
          then (let cleaned = clean_string original (build_cleanup_pattern t)
                in (Some cleaned, if cleaned \<noteq> original then 1 else 0))
          else (Some original, 0))"

text \<open>
  One part of a multimodal content list: the part appended to \<open>cleaned_parts\<close> (or
  \<open>None\<close> when the loop continues without appending), whether \<open>has_changes\<close> is set,
  and the increment of \<open>removed\<close>.
\<close>

definition clean_part :: "tag \<Rightarrow> pyval \<Rightarrow> pyval option \<times> bool \<times> nat" where
  "clean_part t part =
     (case part of
        PDict pd \<Rightarrow>
          if map_of pd ''type'' = Some (PStr ''text'') then
            (case (case map_of pd ''text'' of None \<Rightarrow> PStr [] | Some v \<Rightarrow> v) of
               PStr text \<Rightarrow>
                 if sublist (header t) text \<and> sublist (footer t) text then
                   (let cleaned_text = clean_string text (build_cleanup_pattern t)
                    in if cleaned_text = [] then (None, True, 0)
                       else if cleaned_text \<noteq> text
                       then (Some (PDict (AList.update ''text'' (PStr cleaned_text) pd)), True, 1)
                       else (Some part, False, 0))
                 else (Some part, False, 0)
             | _ \<Rightarrow> (Some part, False, 0))
          else (Some part, False, 0)
      | _ \<Rightarrow> (Some part, False, 0))"

text \<open>The loop over the parts: \<open>cleaned_parts\<close>, \<open>has_changes\<close> and the count.\<close>

fun clean_parts :: "tag \<Rightarrow> pyval list \<Rightarrow> pyval list \<times> bool \<times> nat" where
  "clean_parts t [] = ([], False, 0)"
| "clean_parts t (part # parts) =
     (case clean_part t part of (r, ch, n) \<Rightarrow>
        (case clean_parts t parts of (rs, chs, ns) \<Rightarrow>
           ((case r of None \<Rightarrow> rs | Some q \<Rightarrow> q # rs), ch \<or> chs, n + ns)))"

text \<open>
  One history entry: what is appended to \<open>filtered_contexts\<close> (\<open>None\<close> when nothing is
  appended) and the increment of \<open>removed\<close>. A dict whose content is neither a string
  nor a list reaches no \<open>append\<close> in the source.
\<close>

definition clean_msg :: "tag \<Rightarrow> pyval \<Rightarrow> pyval option \<times> nat" where
  "clean_msg t msg =
     (case msg of
        PStr s \<Rightarrow>
          if sublist (header t) s \<and> sublist (footer t) s then
            (let cleaned = clean_string s (build_cleanup_pattern t)
             in if cleaned = [] then (None, 1)
                else if cleaned \<noteq> s then (Some (PStr cleaned), 1)
                else (Some msg, 0))
          else (Some msg, 0)
      | PDict d \<Rightarrow>
          (case (case map_of d ''content'' of None \<Rightarrow> PStr [] | Some v \<Rightarrow> v) of
             PStr c \<Rightarrow>
               if sublist (header t) c \<and> sublist (footer t) c then
                 (let cleaned = clean_string c (build_cleanup_pattern t)
                  in if cleaned = [] then (None, 1)
                     else if cleaned \<noteq> c
                     then (Some (PDict (AList.update ''content'' (PStr cleaned) d)), 1)
                     else (Some msg, 0))
               else (Some msg, 0)
           | PList parts \<Rightarrow>
               (case clean_parts t parts of (cleaned_parts, has_changes, n) \<Rightarrow>
                  if cleaned_parts = [] then (None, n + 1)
                  else if has_changes
                  then (Some (PDict (AList.update ''content'' (PList cleaned_parts) d)), n)
                  else (Some msg, n))
           | _ \<Rightarrow> (None, 0))
      | _ \<Rightarrow> (Some msg, 0))"

text \<open>The loop over \<open>req.contexts\<close>: \<open>filtered_contexts\<close> and the count.\<close>

fun clean_contexts :: "tag \<Rightarrow> pyval list \<Rightarrow> pyval list \<times> nat" where
  "clean_contexts t [] = ([], 0)"
| "clean_contexts t (msg # msgs) =
     (case clean_msg t msg of (r, n) \<Rightarrow>
        (case clean_contexts t msgs of (rs, ns) \<Rightarrow>
           ((case r of None \<Rightarrow> rs | Some m \<Rightarrow> m # rs), n + ns)))"

text \<open>\<open>_remove_tags_from_context\<close>: the request after the call and the returned count.\<close>

definition remove_tags_from_context :: "'a req_scheme \<Rightarrow> tag \<Rightarrow> 'a req_scheme \<times> nat" where
  "remove_tags_from_context r t =
     (case clean_prompt_field t (system_prompt r) of (sp, n1) \<Rightarrow>
      case clean_prompt_field t (prompt r) of (pr, n2) \<Rightarrow>
      case (if contexts r \<noteq> [] then clean_contexts t (contexts r) else (contexts r, 0))
        of (cs, n3) \<Rightarrow>
      (r\<lparr>system_prompt := sp, prompt := pr, contexts := cs\<rparr>, n1 + n2 + n3))"

section \<open>The request hook: \<open>handle_inject_tags\<close>\<close>

datatype error = KeyError string

text \<open>
  The dict \<open>by_position\<close> with its three keys, and the loop that appends every formatted
  tag to the list under the tag's position; a position that is no key raises.
\<close>

definition by_position_init :: "(string \<times> string list) list" where
  "by_position_init =
     [(''user_message_before'', []), (''user_message_after'', []), (''system_prompt'', [])]"

fun group_by_position ::
  "(string \<times> string list) list \<Rightarrow> tag list \<Rightarrow> error + (string \<times> string list) list" where
  "group_by_position bp [] = Inr bp"
| "group_by_position bp (t # ts) =
     (case map_of bp (position t) of
        None \<Rightarrow> Inl (KeyError (position t))
      | Some xs \<Rightarrow> group_by_position (AList.update (position t) (xs @ [format_tag t]) bp) ts)"

definition bucket :: "(string \<times> string list) list \<Rightarrow> string \<Rightarrow> string list" where
  "bucket bp k = (case map_of bp k of None \<Rightarrow> [] | Some xs \<Rightarrow> xs)"

text \<open>The three assignments of phase 2, given the filled \<open>by_position\<close>.\<close>

definition apply_buckets :: "(string \<times> string list) list \<Rightarrow> 'a req_scheme \<Rightarrow> 'a req_scheme" where
  "apply_buckets bp r =
     (let r1 = (if bucket bp ''user_message_before'' \<noteq> []
                then r\<lparr>prompt := Some (join [NL, NL] (bucket bp ''user_message_before'')
                                         @ [NL, NL] @ or_empty (prompt r))\<rparr>
                else r);
          r2 = (if bucket bp ''user_message_after'' \<noteq> []
                then r1\<lparr>prompt := Some (or_empty (prompt r1) @ [NL, NL]
                                          @ join [NL, NL] (bucket bp ''user_message_after''))\<rparr>
                else r1)
      in if bucket bp ''system_prompt'' \<noteq> []
         then r2\<lparr>system_prompt := Some (or_empty (system_prompt r2) @ [NL, NL]
                                          @ join [NL, NL] (bucket bp ''system_prompt''))\<rparr>
         else r2)"

text \<open>
  Phase 2 of \<open>handle_inject_tags\<close>. The exception of the grouping loop is caught by the
  hook's \<open>except\<close>, before any field has been assigned.
\<close>

definition inject_phase :: "tag list \<Rightarrow> 'a req_scheme \<Rightarrow> 'a req_scheme" where
  "inject_phase tags r =
     (case group_by_position by_position_init tags of
        Inl e \<Rightarrow> r
      | Inr bp \<Rightarrow> apply_buckets bp r)"

text \<open>Phase 1: the cleanup of every registered tag, in order, with the summed count.\<close>

fun cleanup_phase :: "tag list \<Rightarrow> 'a req_scheme \<Rightarrow> 'a req_scheme \<times> nat" where
  "cleanup_phase [] r = (r, 0)"
| "cleanup_phase (t # ts) r =
     (case remove_tags_from_context r t of (r', removed) \<Rightarrow>
        (case cleanup_phase ts r' of (r'', total_removed) \<Rightarrow> (r'', removed + total_removed)))"

definition handle_inject_tags :: "tag list \<Rightarrow> 'a req_scheme \<Rightarrow> 'a req_scheme" where
  "handle_inject_tags tags r =
     (if tags = [] then r else inject_phase tags (fst (cleanup_phase tags r)))"

section \<open>Notions used to state the properties\<close>

text \<open>
  The rendered blocks of the tags anchored at \<open>k\<close>, in the order of the tag list (which
  is the slot order): header, line feed, content, line feed, footer, line feed.
\<close>

definition rendered_blocks :: "string \<Rightarrow> tag list \<Rightarrow> string list" where
  "rendered_blocks k tags =
     map (\<lambda>t. header t @ [NL] @ content t @ [NL] @ footer t @ [NL])
         (filter (\<lambda>t. position t = k) tags)"

text \<open>A text that the cleanup of \<open>t\<close> visits and consumes entirely.\<close>

definition consumed :: "tag \<Rightarrow> string \<Rightarrow> bool" where
  "consumed t s = (sublist (header t) s \<and> sublist (footer t) s
                   \<and> clean_string s (build_cleanup_pattern t) = [])"

fun consumed_part :: "tag \<Rightarrow> pyval \<Rightarrow> bool" where
  "consumed_part t (PDict pd) =
     (map_of pd ''type'' = Some (PStr ''text'') \<and>
      (case map_of pd ''text'' of Some (PStr s) \<Rightarrow> consumed t s | _ \<Rightarrow> False))"
| "consumed_part t _ = False"

text \<open>
  A history entry whose whole content is consumed: a plain string, a dict with string
  content, or a dict whose content is a non-empty list of consumed text parts.
\<close>

fun consumed_entry :: "tag \<Rightarrow> pyval \<Rightarrow> bool" where
  "consumed_entry t (PStr s) = consumed t s"
| "consumed_entry t (PDict d) =
     (case map_of d ''content'' of
        Some (PStr s) \<Rightarrow> consumed t s
      | Some (PList parts) \<Rightarrow> parts \<noteq> [] \<and> list_all (consumed_part t) parts
      | _ \<Rightarrow> False)"
| "consumed_entry t _ = False"

text \<open>A text-kind part with string text, and a history entry that is a string or a dict.\<close>

definition str_text_part :: "pyval \<Rightarrow> bool" where
  "str_text_part p =
     (case p of
        PDict pd \<Rightarrow> map_of pd ''type'' = Some (PStr ''text'') \<and>
                    (case map_of pd ''text'' of Some (PStr s) \<Rightarrow> True | _ \<Rightarrow> False)
      | _ \<Rightarrow> False)"

definition str_or_dict :: "pyval \<Rightarrow> bool" where
  "str_or_dict m = (case m of PStr s \<Rightarrow> True | PDict d \<Rightarrow> True | _ \<Rightarrow> False)"

text \<open>The content list of a multimodal message (empty for every other value).\<close>

definition content_parts :: "pyval \<Rightarrow> pyval list" where
  "content_parts m =
     (case m of
        PDict d \<Rightarrow> (case map_of d ''content'' of Some (PList ps) \<Rightarrow> ps | _ \<Rightarrow> [])
      | _ \<Rightarrow> [])"

text \<open>What \<open>_load_tags\<close> reads from an enabled slot.\<close>

definition slot_enabled :: "(string \<times> cfgval) list \<Rightarrow> bool" where
  "slot_enabled d = (case map_of d ''enabled'' of None \<Rightarrow> False | Some v \<Rightarrow> truthy v)"

definition slot_name :: "(string \<times> cfgval) list \<Rightarrow> string" where
  "slot_name d = strip (py_str (case map_of d ''tag_name'' of None \<Rightarrow> CStr [] | Some v \<Rightarrow> v))"

definition slot_content :: "(string \<times> cfgval) list \<Rightarrow> string" where
  "slot_content d =
     strip (replace_escaped_newline
              (py_str (case map_of d ''content'' of None \<Rightarrow> CStr [] | Some v \<Rightarrow> v)))"

definition slot_position :: "(string \<times> cfgval) list \<Rightarrow> string" where
  "slot_position d =
     strip (py_str (case map_of d ''injection_position'' of
                      None \<Rightarrow> CStr ''user_message_after'' | Some v \<Rightarrow> v))"

text \<open>
  A tag as \<open>_load_tags\<close> builds it: a non-empty name of name characters, the header
  \<open><name>\<close> and the footer \<open></name>\<close>.
\<close>

definition tag_wf :: "tag \<Rightarrow> bool" where
  "tag_wf t = (tag_name t \<noteq> [] \<and> list_all name_char (tag_name t)
               \<and> header t = [LT] @ tag_name t @ [GT]
               \<and> footer t = [LT, SLASH] @ tag_name t @ [GT])"

text \<open>
  The text \<open>s\<close> contains a span the cleanup pattern matches: the header \<open>h\<close> occurs and,
  after its first occurrence, the footer \<open>f\<close> occurs.
\<close>

definition has_match :: "string \<Rightarrow> string \<Rightarrow> string \<Rightarrow> bool" where
  "has_match h f s = (case find_after h s of None \<Rightarrow> False | Some r \<Rightarrow> sublist f r)"

text \<open>
  No occurrence of the header \<open>h\<close> in \<open>s\<close> is immediately preceded by a non-empty proper
  prefix of \<open>h\<close> (as in \<open><Fo<Foo>\<close>), so that deleting a block cannot join the two pieces
  of a split header.
\<close>

definition split_header_free :: "string \<Rightarrow> string \<Rightarrow> bool" where
  "split_header_free h s =
     (\<forall>u \<in> set (prefixes h). u \<noteq> [] \<and> u \<noteq> h \<longrightarrow> \<not> sublist (u @ h) s)"

abbreviation isNL :: "char \<Rightarrow> bool" where "isNL \<equiv> (\<lambda>x. x = NL)"

text \<open>
  The texts the cleanup visits: the two prompt fields, plain-string history entries, the
  string content of dict entries, and the string text of text-kind parts.
\<close>

fun part_texts :: "pyval \<Rightarrow> string list" where
  "part_texts (PDict pd) =
     (if map_of pd ''type'' = Some (PStr ''text'')
      then (case map_of pd ''text'' of Some (PStr s) \<Rightarrow> [s] | _ \<Rightarrow> [])
      else [])"
| "part_texts _ = []"

fun msg_texts :: "pyval \<Rightarrow> string list" where
  "msg_texts (PStr s) = [s]"
| "msg_texts (PDict d) =
     (case map_of d ''content'' of
        Some (PStr s) \<Rightarrow> [s]
      | Some (PList ps) \<Rightarrow> concat (map part_texts ps)
      | _ \<Rightarrow> [])"
| "msg_texts _ = []"

definition req_texts :: "'a req_scheme \<Rightarrow> string list" where
  "req_texts r =
     (case system_prompt r of None \<Rightarrow> [] | Some s \<Rightarrow> [s])
     @ (case prompt r of None \<Rightarrow> [] | Some s \<Rightarrow> [s])
     @ concat (map msg_texts (contexts r))"

text \<open>What the cleanup of \<open>t\<close> leaves of a visited text that survives.\<close>

definition kept_text :: "tag \<Rightarrow> string \<Rightarrow> string" where
  "kept_text t s = (if sublist (header t) s \<and> sublist (footer t) s
                    then clean_string s (build_cleanup_pattern t) else s)"

text \<open>The field of the request that the tag \<open>t\<close> is injected into.\<close>

definition anchor_field :: "tag \<Rightarrow> 'a req_scheme \<Rightarrow> string option" where
  "anchor_field t r = (if position t = ''system_prompt'' then system_prompt r else prompt r)"

text \<open>The dict that \<open>_load_tags\<close> appends for a validated name, content and position.\<close>

definition make_tag :: "string \<Rightarrow> string \<Rightarrow> string \<Rightarrow> string \<Rightarrow> tag" where
  "make_tag slot_key name cont pos =
     \<lparr> slot = slot_key, tag_name = name, content = cont, position = pos,
       header = [LT] @ name @ [GT], footer = [LT, SLASH] @ name @ [GT] \<rparr>"


text \<open>The rendered block of \<open>t\<close> without its final line feed.\<close>

definition block_core :: "tag \<Rightarrow> string" where
  "block_core t = header t @ [NL] @ content t @ [NL] @ footer t"

text \<open>
  The text \<open>s\<close> holds the rendered block of \<open>t\<close>: the whole block somewhere in \<open>s\<close>, or
  the block without its final line feed at the end of \<open>s\<close>.
\<close>

definition holds_block :: "tag \<Rightarrow> string \<Rightarrow> bool" where
  "holds_block t s = (sublist (format_tag t) s \<or> suffix (block_core t) s)"

section \<open>Injection\<close>

lemma bucket_update:
  "bucket (AList.update k v bp) k' = (if k' = k then v else bucket bp k')"
  by (simp add: bucket_def update_conv')

lemma group_by_position_Inr:
  "group_by_position bp tags = Inr bp' \<Longrightarrow>
     bucket bp' k = bucket bp k @ map format_tag (filter (\<lambda>t. position t = k) tags)"
proof (induction tags arbitrary: bp)
  case Nil
  then show ?case by simp
next
  case (Cons t ts)
  then obtain xs where xs: "map_of bp (position t) = Some xs"
    by (auto split: option.splits)
  with Cons.prems
  have rec: "group_by_position (AList.update (position t) (xs @ [format_tag t]) bp) ts = Inr bp'"
    by simp
  from xs have b: "bucket bp (position t) = xs"
    by (simp add: bucket_def)
  show ?case
    using Cons.IH [OF rec] b by (simp add: bucket_update)
qed

lemma group_by_position_total:
  "\<forall>t \<in> set tags. position t \<in> dom (map_of bp) \<Longrightarrow> \<exists>bp'. group_by_position bp tags = Inr bp'"
proof (induction tags arbitrary: bp)
  case Nil
  then show ?case by simp
next
  case (Cons t ts)
  then obtain xs where xs: "map_of bp (position t) = Some xs"
    by auto
  have "\<forall>u \<in> set ts. position u \<in> dom (map_of (AList.update (position t) (xs @ [format_tag t]) bp))"
    using Cons.prems by (auto simp: update_conv')
  from Cons.IH [OF this] show ?case
    using xs by simp
qed

lemma bucket_init: "bucket by_position_init k = []"
  by (simp add: bucket_def by_position_init_def)

lemma dom_init: "dom (map_of by_position_init) = set recognized_positions"
  by (auto simp: by_position_init_def recognized_positions_def)

lemma group_by_position_init:
  assumes "group_by_position by_position_init tags = Inr bp"
  shows "bucket bp k = rendered_blocks k tags"
  using group_by_position_Inr [OF assms, of k]
  by (simp add: bucket_init rendered_blocks_def format_tag_def)

lemma inject_phase_prompt:
  assumes "\<forall>t \<in> set tags. position t \<in> set recognized_positions"
  shows "prompt (inject_phase tags r) =
     (let bs = rendered_blocks ''user_message_before'' tags;
          as = rendered_blocks ''user_message_after'' tags
      in if bs = [] \<and> as = [] then prompt r
         else Some ((if bs = [] then [] else join [NL, NL] bs @ [NL, NL])
                    @ or_empty (prompt r)
                    @ (if as = [] then [] else [NL, NL] @ join [NL, NL] as)))"
proof -
  from assms obtain bp where bp: "group_by_position by_position_init tags = Inr bp"
    using group_by_position_total [of tags by_position_init] by (auto simp: dom_init)
  note b = group_by_position_init [OF bp]
  show ?thesis
    by (simp add: inject_phase_def bp apply_buckets_def b Let_def or_empty_def)
qed

lemma inject_phase_system_prompt:
  assumes "\<forall>t \<in> set tags. position t \<in> set recognized_positions"
  shows "system_prompt (inject_phase tags r) =
     (let ss = rendered_blocks ''system_prompt'' tags
      in if ss = [] then system_prompt r
         else Some (or_empty (system_prompt r) @ [NL, NL] @ join [NL, NL] ss))"
proof -
  from assms obtain bp where bp: "group_by_position by_position_init tags = Inr bp"
    using group_by_position_total [of tags by_position_init] by (auto simp: dom_init)
  note b = group_by_position_init [OF bp]
  show ?thesis
    by (simp add: inject_phase_def bp apply_buckets_def b Let_def or_empty_def)
qed





text \<open>
  C10. The injection phase leaves \<open>req.contexts\<close> and every other field of the request
  as they are; \<open>req.prompt\<close> is unchanged when no tag is anchored before or after the user
  message, and \<open>req.system_prompt\<close> is unchanged when no tag is anchored at the system
  prompt.
\<close>

theorem inject_frame:
  "contexts (inject_phase tags r) = contexts r \<and>
   req.more (inject_phase tags r) = req.more r \<and>
   (rendered_blocks ''user_message_before'' tags = [] \<and>
    rendered_blocks ''user_message_after'' tags = []
      \<longrightarrow> prompt (inject_phase tags r) = prompt r) \<and>
   (rendered_blocks ''system_prompt'' tags = []
      \<longrightarrow> system_prompt (inject_phase tags r) = system_prompt r)"
proof (cases "group_by_position by_position_init tags")
  case (Inl e)
  then show ?thesis by (simp add: inject_phase_def)
next
  case (Inr bp)
  note b = group_by_position_init [OF Inr]
  show ?thesis
    by (simp add: inject_phase_def Inr apply_buckets_def b Let_def)
qed

theorem inject_frame_witness:
  "contexts (inject_phase
      [\<lparr>slot = ''tag_1'', tag_name = ''Foo'', content = ''f'',
        position = ''system_prompt'', header = ''<Foo>'', footer = ''</Foo>''\<rparr>]
      \<lparr>system_prompt = Some ''S'', prompt = Some ''Q'', contexts = [PStr ''old'']\<rparr>)
     = [PStr ''old'']
   \<and> prompt (inject_phase
      [\<lparr>slot = ''tag_1'', tag_name = ''Foo'', content = ''f'',
        position = ''system_prompt'', header = ''<Foo>'', footer = ''</Foo>''\<rparr>]
      \<lparr>system_prompt = Some ''S'', prompt = Some ''Q'', contexts = [PStr ''old'']\<rparr>)
     = Some ''Q''
   \<and> system_prompt (inject_phase []
      \<lparr>system_prompt = Some ''S'', prompt = Some ''Q'', contexts = [PStr ''old'']\<rparr>)
     = Some ''S''"
  using inject_frame [of "[\<lparr>slot = ''tag_1'', tag_name = ''Foo'', content = ''f'',
        position = ''system_prompt'', header = ''<Foo>'', footer = ''</Foo>''\<rparr>]"
      "\<lparr>system_prompt = Some ''S'', prompt = Some ''Q'', contexts = [PStr ''old'']\<rparr>"]
    inject_frame [of "[]"
      "\<lparr>system_prompt = Some ''S'', prompt = Some ''Q'', contexts = [PStr ''old'']\<rparr>"]
  by (simp add: rendered_blocks_def)

section \<open>Registry load\<close>

lemma strip_user_message_after: "strip ''user_message_after'' = ''user_message_after''"
  by (simp add: strip_def is_space_def)

lemma load_tags_set:
  "set (load_tags config) = {t. \<exists>k \<in> set TAG_SLOT_KEYS. load_slot k (map_of config k) = Some t}"
  by (force simp: load_tags_def List.map_filter_def image_iff)

lemma load_slot_enabled:
  "slot_enabled d \<Longrightarrow>
   load_slot k (Some (CSlot d)) =
     (if slot_name d = [] \<or> \<not> TAG_NAME_PATTERN_match (slot_name d) \<or> slot_content d = []
      then None
      else Some \<lparr>slot = k, tag_name = slot_name d, content = slot_content d,
                 position = (if slot_position d \<notin> set recognized_positions
                             then ''user_message_after'' else slot_position d),
                 header = [LT] @ slot_name d @ [GT],
                 footer = [LT, SLASH] @ slot_name d @ [GT]\<rparr>)"
  by (simp add: load_slot_def slot_enabled_def slot_name_def slot_content_def slot_position_def
        Let_def)

lemma slot_update_position:
  "slot_enabled (AList.update ''injection_position'' v d) = slot_enabled d"
  "slot_name (AList.update ''injection_position'' v d) = slot_name d"
  "slot_content (AList.update ''injection_position'' v d) = slot_content d"
  "slot_position (AList.update ''injection_position'' v d) = strip (py_str v)"
  by (simp_all add: slot_enabled_def slot_name_def slot_content_def slot_position_def update_conv')

text \<open>
  C8. An enabled slot whose injection position is not one of the three recognized ones is
  not skipped for that: it is loaded exactly when its name and content pass the
  validation, with position \<open>user_message_after\<close>; the outcome is that of the same slot
  configured with \<open>user_message_after\<close>, and the loaded tag is in the registry.
\<close>

theorem unrecognized_position_falls_back:
  assumes en: "slot_enabled d" and bad: "slot_position d \<notin> set recognized_positions"
  shows "load_slot k (Some (CSlot d)) =
           (if slot_name d = [] \<or> \<not> TAG_NAME_PATTERN_match (slot_name d) \<or> slot_content d = []
            then None
            else Some \<lparr>slot = k, tag_name = slot_name d, content = slot_content d,
                       position = ''user_message_after'',
                       header = [LT] @ slot_name d @ [GT],
                       footer = [LT, SLASH] @ slot_name d @ [GT]\<rparr>)
         \<and> load_slot k (Some (CSlot d))
             = load_slot k (Some (CSlot (AList.update ''injection_position''
                                            (CStr ''user_message_after'') d)))
         \<and> (k \<in> set TAG_SLOT_KEYS \<and> map_of config k = Some (CSlot d) \<longrightarrow>
              (\<forall>t. load_slot k (Some (CSlot d)) = Some t \<longrightarrow> t \<in> set (load_tags config)))"
proof -
  have a: "load_slot k (Some (CSlot d)) =
           (if slot_name d = [] \<or> \<not> TAG_NAME_PATTERN_match (slot_name d) \<or> slot_content d = []
            then None
            else Some \<lparr>slot = k, tag_name = slot_name d, content = slot_content d,
                       position = ''user_message_after'',
                       header = [LT] @ slot_name d @ [GT],
                       footer = [LT, SLASH] @ slot_name d @ [GT]\<rparr>)"
    using bad by (simp add: load_slot_enabled [OF en])
  have en': "slot_enabled (AList.update ''injection_position'' (CStr ''user_message_after'') d)"
    using en by (simp add: slot_update_position)
  have b: "load_slot k (Some (CSlot d))
             = load_slot k (Some (CSlot (AList.update ''injection_position''
                                            (CStr ''user_message_after'') d)))"
    unfolding a load_slot_enabled [OF en']
    by (simp add: slot_update_position py_str_def strip_user_message_after recognized_positions_def)
  have c: "k \<in> set TAG_SLOT_KEYS \<and> map_of config k = Some (CSlot d) \<longrightarrow>
              (\<forall>t. load_slot k (Some (CSlot d)) = Some t \<longrightarrow> t \<in> set (load_tags config))"
    unfolding load_tags_set by force
  from a b c show ?thesis by blast
qed

theorem unrecognized_position_falls_back_witness:
  "load_tags [(''tag_1'', CSlot [(''enabled'', CBool True), (''tag_name'', CStr ''Foo''),
                                 (''content'', CStr ''x''), (''injection_position'', CStr ''bogus'')])]
   = [\<lparr>slot = ''tag_1'', tag_name = ''Foo'', content = ''x'', position = ''user_message_after'',
       header = ''<Foo>'', footer = ''</Foo>''\<rparr>]
   \<and> load_slot ''tag_1'' (Some (CSlot [(''enabled'', CBool True), (''tag_name'', CStr ''Foo''),
                                 (''content'', CStr ''x''), (''injection_position'', CStr ''bogus'')]))
     = Some \<lparr>slot = ''tag_1'', tag_name = ''Foo'', content = ''x'', position = ''user_message_after'',
       header = ''<Foo>'', footer = ''</Foo>''\<rparr>"
proof -
  let ?d = "[(''enabled'', CBool True), (''tag_name'', CStr ''Foo''),
             (''content'', CStr ''x''), (''injection_position'', CStr ''bogus'')]"
  have en: "slot_enabled ?d"
    by (simp add: slot_enabled_def truthy_def)
  have bad: "slot_position ?d \<notin> set recognized_positions"
    by code_simp
  have n: "slot_name ?d = ''Foo''" by code_simp
  have c: "slot_content ?d = ''x''" by code_simp
  have m: "TAG_NAME_PATTERN_match ''Foo''" by code_simp
  have l: "load_tags [(''tag_1'', CSlot ?d)] = [\<lparr>slot = ''tag_1'', tag_name = ''Foo'', content = ''x'', position = ''user_message_after'',
       header = ''<Foo>'', footer = ''</Foo>''\<rparr>]"
    by code_simp
  show ?thesis
    using unrecognized_position_falls_back [OF en bad, where k = "''tag_1''"
        and config = "[(''tag_1'', CSlot ?d)]"] n c m l
    by simp
qed

section \<open>History cleanup\<close>

lemma clean_contexts_append:
  "clean_contexts t (a @ b) =
     (fst (clean_contexts t a) @ fst (clean_contexts t b),
      snd (clean_contexts t a) + snd (clean_contexts t b))"
  by (induction a) (auto split: prod.splits option.splits)

lemma consumed_part_dropped:
  "consumed_part t p \<Longrightarrow> clean_part t p = (None, True, 0)"
  by (cases p) (auto simp: clean_part_def consumed_def split: option.splits pyval.splits)

lemma consumed_parts_dropped:
  "list_all (consumed_part t) ps \<Longrightarrow> fst (clean_parts t ps) = [] \<and> snd (snd (clean_parts t ps)) = 0"
  by (induction ps) (auto simp: consumed_part_dropped split: prod.splits)

lemma consumed_entry_dropped:
  "consumed_entry t m \<Longrightarrow> clean_msg t m = (None, 1)"
proof (cases m)
  case (PStr s)
  assume "consumed_entry t m"
  with PStr show ?thesis by (simp add: clean_msg_def consumed_def)
next
  case (PDict d)
  assume c: "consumed_entry t m"
  show ?thesis
  proof (cases "map_of d ''content''")
    case None
    with c PDict show ?thesis by simp
  next
    case (Some v)
    show ?thesis
    proof (cases v)
      case (PStr s)
      with c PDict Some show ?thesis by (simp add: clean_msg_def consumed_def)
    next
      case (PList parts)
      with c PDict Some have "list_all (consumed_part t) parts" by simp
      from consumed_parts_dropped [OF this] PDict Some PList show ?thesis
        by (auto simp: clean_msg_def split: prod.splits)
    qed (use c PDict Some in simp_all)
  qed
qed simp_all

text \<open>
  C4. A history entry whose whole content is consumed by the cleanup of tag \<open>t\<close> (a plain
  string, a dict with string content, or a dict whose content list consists of consumed
  text parts) is not appended to the filtered history: it counts 1 and the history after
  the call is what the entries before and after it leave.
\<close>

theorem emptied_entry_removed:
  assumes "consumed_entry t m"
  shows "clean_msg t m = (None, 1) \<and>
         contexts (fst (remove_tags_from_context (r\<lparr>contexts := pre @ m # post\<rparr>) t))
           = fst (clean_contexts t pre) @ fst (clean_contexts t post)"
  using consumed_entry_dropped [OF assms]
  by (simp add: remove_tags_from_context_def clean_contexts_append split: prod.splits)

lemma other_entry_passes: "\<not> str_or_dict m \<Longrightarrow> clean_msg t m = (Some m, 0)"
  by (cases m) (simp_all add: clean_msg_def str_or_dict_def)

lemma other_part_passes:
  "header t \<noteq> [] \<Longrightarrow> \<not> str_text_part p \<Longrightarrow> clean_part t p = (Some p, False, 0)"
  by (cases p) (auto simp: clean_part_def str_text_part_def split: option.splits pyval.splits)

lemma clean_parts_append:
  "clean_parts t (a @ b) =
     (fst (clean_parts t a) @ fst (clean_parts t b),
      fst (snd (clean_parts t a)) \<or> fst (snd (clean_parts t b)),
      snd (snd (clean_parts t a)) + snd (snd (clean_parts t b)))"
  by (induction a) (auto split: prod.splits option.splits)

lemma clean_parts_unchanged:
  "\<not> fst (snd (clean_parts t ps)) \<Longrightarrow> fst (clean_parts t ps) = ps"
proof (induction ps)
  case Nil
  then show ?case by simp
next
  case (Cons p ps)
  have "fst (clean_part t p) = Some p \<or> fst (snd (clean_part t p))"
    by (auto simp: clean_part_def Let_def split: pyval.splits option.splits)
  with Cons show ?case
    by (auto split: prod.splits option.splits)
qed

lemma other_part_in_msg:
  assumes h: "header t \<noteq> []" and p: "\<not> str_text_part p"
    and c: "map_of d ''content'' = Some (PList (ps1 @ p # ps2))"
  shows "\<exists>m'. clean_msg t (PDict d) = (Some m', snd (snd (clean_parts t (ps1 @ p # ps2)))) \<and>
           content_parts m' = fst (clean_parts t ps1) @ p # fst (clean_parts t ps2)"
proof -
  let ?ps = "ps1 @ p # ps2"
  have parts: "fst (clean_parts t ?ps) = fst (clean_parts t ps1) @ p # fst (clean_parts t ps2)"
    using other_part_passes [OF h p] by (simp add: clean_parts_append split: prod.splits)
  show ?thesis
  proof (cases "fst (snd (clean_parts t ?ps))")
    case True
    with parts c show ?thesis
      by (auto simp: clean_msg_def content_parts_def update_conv' split: prod.splits)
  next
    case False
    from clean_parts_unchanged [OF False] parts c False show ?thesis
      by (auto simp: clean_msg_def content_parts_def split: prod.splits)
  qed
qed

text \<open>
  C9. A history entry that is neither a string nor a dict is appended to the filtered
  history as it is, and a part that is no text-kind part with string text is appended to
  the cleaned parts as it is, so that its message survives with the part in place. The
  model of the cleanup has no error result: every operation of the source on a value is
  guarded by an \<open>isinstance\<close> test.
\<close>

theorem unexpected_shapes_pass_through:
  assumes "header t \<noteq> []"
  shows "(\<not> str_or_dict m \<longrightarrow>
            clean_msg t m = (Some m, 0) \<and>
            contexts (fst (remove_tags_from_context (r\<lparr>contexts := pre @ m # post\<rparr>) t))
              = fst (clean_contexts t pre) @ m # fst (clean_contexts t post)) \<and>
         (\<not> str_text_part p \<longrightarrow>
            clean_part t p = (Some p, False, 0) \<and>
            (map_of d ''content'' = Some (PList (ps1 @ p # ps2)) \<longrightarrow>
               (\<exists>m'. fst (clean_msg t (PDict d)) = Some m' \<and>
                     content_parts m' = fst (clean_parts t ps1) @ p # fst (clean_parts t ps2) \<and>
                     contexts (fst (remove_tags_from_context (r\<lparr>contexts := pre @ PDict d # post\<rparr>) t))
                       = fst (clean_contexts t pre) @ m' # fst (clean_contexts t post))))"
proof (intro conjI impI)
  assume m: "\<not> str_or_dict m"
  from other_entry_passes [OF m] show "clean_msg t m = (Some m, 0)" .
  from other_entry_passes [OF m]
  show "contexts (fst (remove_tags_from_context (r\<lparr>contexts := pre @ m # post\<rparr>) t))
          = fst (clean_contexts t pre) @ m # fst (clean_contexts t post)"
    by (simp add: remove_tags_from_context_def clean_contexts_append split: prod.splits)
next
  assume p: "\<not> str_text_part p"
  from other_part_passes [OF assms p] show "clean_part t p = (Some p, False, 0)" .
next
  assume p: "\<not> str_text_part p" and c: "map_of d ''content'' = Some (PList (ps1 @ p # ps2))"
  from other_part_in_msg [OF assms p c] obtain m' n where
    m': "clean_msg t (PDict d) = (Some m', n)"
    "content_parts m' = fst (clean_parts t ps1) @ p # fst (clean_parts t ps2)"
    by blast
  then show "\<exists>m'. fst (clean_msg t (PDict d)) = Some m' \<and>
       content_parts m' = fst (clean_parts t ps1) @ p # fst (clean_parts t ps2) \<and>
       contexts (fst (remove_tags_from_context (r\<lparr>contexts := pre @ PDict d # post\<rparr>) t))
         = fst (clean_contexts t pre) @ m' # fst (clean_contexts t post)"
    by (simp add: remove_tags_from_context_def clean_contexts_append split: prod.splits)
qed


text \<open>A multimodal entry whose only part is one tagged block, between two plain entries.\<close>

theorem emptied_entry_removed_witness:
  "consumed_entry
     \<lparr>slot = ''tag_1'', tag_name = ''Foo'', content = ''f'', position = ''user_message_after'',
      header = ''<Foo>'', footer = ''</Foo>''\<rparr>
     (PDict [(''role'', PStr ''user''),
             (''content'', PList [PDict [(''type'', PStr ''text''), (''text'', PStr ''<Foo>old</Foo>'')]])])
   \<and> contexts (fst (remove_tags_from_context
        \<lparr>system_prompt = None, prompt = None,
         contexts = [PStr ''a'',
                     PDict [(''role'', PStr ''user''),
                            (''content'', PList [PDict [(''type'', PStr ''text''), (''text'', PStr ''<Foo>old</Foo>'')]])],
                     PStr ''b'']\<rparr>
        \<lparr>slot = ''tag_1'', tag_name = ''Foo'', content = ''f'', position = ''user_message_after'',
         header = ''<Foo>'', footer = ''</Foo>''\<rparr>))
     = [PStr ''a'', PStr ''b'']"
proof -
  let ?t = "\<lparr>slot = ''tag_1'', tag_name = ''Foo'', content = ''f'', position = ''user_message_after'',
      header = ''<Foo>'', footer = ''</Foo>''\<rparr>"
  let ?m = "PDict [(''role'', PStr ''user''),
             (''content'', PList [PDict [(''type'', PStr ''text''), (''text'', PStr ''<Foo>old</Foo>'')]])]"
  have h: "consumed_entry ?t ?m"
    by code_simp
  have a: "fst (clean_contexts ?t [PStr ''a'']) = [PStr ''a'']"
    by code_simp
  have b: "fst (clean_contexts ?t [PStr ''b'']) = [PStr ''b'']"
    by code_simp
  show ?thesis
    using h emptied_entry_removed [OF h, where r = "\<lparr>system_prompt = None, prompt = None, contexts = []\<rparr>"
        and pre = "[PStr ''a'']" and post = "[PStr ''b'']"] a b
    by simp
qed

text \<open>
  C7. The count returned by \<open>_remove_tags_from_context\<close> is meant to include every
  emptied text part of a multimodal message. At the history below, the text part is
  dropped from the message (the image part alone is left) and the returned count is 0,
  while a plain-string entry with the same text counts 1.
\<close>

theorem dropped_part_not_counted:
  "remove_tags_from_context
     \<lparr>system_prompt = None, prompt = None,
      contexts = [PDict [(''role'', PStr ''user''),
                         (''content'', PList [PDict [(''type'', PStr ''text''), (''text'', PStr ''<Foo>old</Foo>'')],
                                              PDict [(''type'', PStr ''image_url'')]])]]\<rparr>
     \<lparr>slot = ''tag_1'', tag_name = ''Foo'', content = ''f'', position = ''user_message_after'',
      header = ''<Foo>'', footer = ''</Foo>''\<rparr>
   = (\<lparr>system_prompt = None, prompt = None,
       contexts = [PDict [(''role'', PStr ''user''),
                          (''content'', PList [PDict [(''type'', PStr ''image_url'')]])]]\<rparr>, 0)
   \<and>
   snd (remove_tags_from_context
     \<lparr>system_prompt = None, prompt = None, contexts = [PStr ''<Foo>old</Foo>'']\<rparr>
     \<lparr>slot = ''tag_1'', tag_name = ''Foo'', content = ''f'', position = ''user_message_after'',
      header = ''<Foo>'', footer = ''</Foo>''\<rparr>) = 1"
  by code_simp

theorem unexpected_shapes_pass_through_witness:
  "contexts (fst (remove_tags_from_context
        \<lparr>system_prompt = None, prompt = None,
         contexts = [PStr ''<Foo>old</Foo>'', PInt 7, PStr ''b'']\<rparr>
        (make_tag ''tag_1'' ''Foo'' ''f'' ''user_message_after'')))
     = [PInt 7, PStr ''b'']
   \<and> clean_part (make_tag ''tag_1'' ''Foo'' ''f'' ''user_message_after'')
        (PDict [(''type'', PStr ''text''), (''text'', PNone)])
     = (Some (PDict [(''type'', PStr ''text''), (''text'', PNone)]), False, 0)
   \<and> contexts (fst (remove_tags_from_context
        \<lparr>system_prompt = None, prompt = None,
         contexts = [PDict [(''role'', PStr ''user''),
                            (''content'', PList [PDict [(''type'', PStr ''text''),
                                                        (''text'', PStr ''<Foo>old</Foo>'')],
                                                 PDict [(''type'', PStr ''text''), (''text'', PNone)]])]]\<rparr>
        (make_tag ''tag_1'' ''Foo'' ''f'' ''user_message_after'')))
     = [PDict [(''role'', PStr ''user''),
               (''content'', PList [PDict [(''type'', PStr ''text''), (''text'', PNone)]])]]"
proof -
  let ?t = "make_tag ''tag_1'' ''Foo'' ''f'' ''user_message_after''"
  let ?p = "PDict [(''type'', PStr ''text''), (''text'', PNone)]"
  let ?q = "PDict [(''type'', PStr ''text''), (''text'', PStr ''<Foo>old</Foo>'')]"
  let ?d = "[(''role'', PStr ''user''), (''content'', PList [?q, ?p])]"
  let ?r = "\<lparr>system_prompt = None, prompt = None, contexts = []\<rparr>"
  have h: "header ?t \<noteq> []" by (simp add: make_tag_def)
  have m: "\<not> str_or_dict (PInt 7)" by (simp add: str_or_dict_def)
  have p: "\<not> str_text_part ?p" by (simp add: str_text_part_def)
  have a: "fst (clean_contexts ?t [PStr ''<Foo>old</Foo>'']) = []" by code_simp
  have b: "fst (clean_contexts ?t [PStr ''b'']) = [PStr ''b'']" by code_simp
  have c: "map_of ?d ''content'' = Some (PList ([?q] @ ?p # []))" by simp
  have e: "fst (clean_msg ?t (PDict ?d)) = Some (PDict [(''role'', PStr ''user''), (''content'', PList [?p])])"
    by code_simp
  note w = unexpected_shapes_pass_through [OF h, where m = "PInt 7" and r = ?r and p = ?p]
  from w [where pre = "[PStr ''<Foo>old</Foo>'']" and post = "[PStr ''b'']"] m a b
  have 1: "contexts (fst (remove_tags_from_context
             (?r\<lparr>contexts := [PStr ''<Foo>old</Foo>''] @ PInt 7 # [PStr ''b'']\<rparr>) ?t))
           = [PInt 7, PStr ''b'']"
    by simp
  from w p have 2: "clean_part ?t ?p = (Some ?p, False, 0)" by blast
  from w [where pre = "[]" and post = "[]" and d = ?d and ?ps1.0 = "[?q]" and ?ps2.0 = "[]"] p c e
  have 3: "contexts (fst (remove_tags_from_context (?r\<lparr>contexts := [] @ PDict ?d # []\<rparr>) ?t))
           = [PDict [(''role'', PStr ''user''), (''content'', PList [?p])]]"
    by simp
  from 1 2 3 show ?thesis by simp
qed

section \<open>The pattern and its matches\<close>

lemma find_after_Some:
  "find_after w s = Some r \<Longrightarrow> \<exists>a. s = a @ w @ r"
proof (induction s)
  case Nil
  then show ?case by (auto split: if_splits)
next
  case (Cons c cs)
  show ?case
  proof (cases "prefix w (c # cs)")
    case True
    with Cons.prems have "r = drop (length w) (c # cs)" by simp
    moreover from True have "c # cs = w @ drop (length w) (c # cs)"
      by (auto simp: prefix_def)
    ultimately have "c # cs = [] @ w @ r" by simp
    then show ?thesis by blast
  next
    case False
    with Cons.prems have "find_after w cs = Some r" by simp
    from Cons.IH [OF this] obtain a where "cs = a @ w @ r" by blast
    then have "c # cs = (c # a) @ w @ r" by simp
    then show ?thesis by blast
  qed
qed

lemma find_after_None: "find_after w s = None \<longleftrightarrow> \<not> sublist w s"
  by (induction s) (auto simp: sublist_Cons_right)

lemma find_after_suffix:
  "find_after w (a @ w @ x) = Some r \<Longrightarrow> suffix x r"
proof (induction a)
  case Nil
  have p: "prefix w (w @ x)" by simp
  show ?case
  proof (cases "w @ x")
    case Nil
    with Nil.prems show ?thesis by simp
  next
    case (Cons c cs)
    with p have "prefix w (c # cs)" by simp
    with Nil.prems Cons have "r = drop (length w) (w @ x)"
      by simp
    then show ?thesis by simp
  qed
next
  case (Cons c a)
  show ?case
  proof (cases "prefix w (c # a @ w @ x)")
    case True
    with Cons.prems have "r = drop (length w) ((c # a @ w) @ x)" by simp
    also have "\<dots> = drop (length w) (c # a @ w) @ drop (length w - length (c # a @ w)) x"
      by (rule drop_append)
    finally have "r = drop (length w) (c # a @ w) @ x" by simp
    then show ?thesis by (simp add: suffix_def)
  next
    case False
    with Cons.prems Cons.IH show ?thesis by simp
  qed
qed

lemma has_match_iff: "has_match h f s \<longleftrightarrow> (\<exists>a b c. s = a @ h @ b @ f @ c)"
proof
  assume "has_match h f s"
  then obtain r where r: "find_after h s = Some r" and f: "sublist f r"
    by (auto simp: has_match_def split: option.splits)
  from find_after_Some [OF r] obtain a where "s = a @ h @ r" by blast
  moreover from f obtain b c where "r = b @ f @ c" by (auto simp: sublist_def)
  ultimately show "\<exists>a b c. s = a @ h @ b @ f @ c" by blast
next
  assume "\<exists>a b c. s = a @ h @ b @ f @ c"
  then obtain a b c where s: "s = a @ h @ b @ f @ c" by blast
  then have "sublist h s" by auto
  then obtain r where r: "find_after h s = Some r"
    using find_after_None [of h s] by (cases "find_after h s") auto
  with s have "suffix (b @ f @ c) r" using find_after_suffix [of h a "b @ f @ c" r] by simp
  then have "sublist f r" by (auto simp: suffix_def sublist_def) (metis append.assoc)
  with r show "has_match h f s" by (simp add: has_match_def)
qed

lemma has_match_Cons: "has_match h f s \<Longrightarrow> has_match h f (c # s)"
  unfolding has_match_iff by (metis append_Cons)

lemma has_match_append_left: "has_match h f s \<Longrightarrow> has_match h f (a @ s)"
  by (induction a) (auto intro: has_match_Cons)

lemma has_match_append_right: "has_match h f s \<Longrightarrow> has_match h f (s @ a)"
  unfolding has_match_iff by (metis append.assoc)

lemma has_match_sublist: "has_match h f y \<Longrightarrow> sublist y x \<Longrightarrow> has_match h f x"
  by (auto simp: sublist_def intro: has_match_append_left has_match_append_right)

lemma match_at_Some_has_match:
  "match_at (LazySpan h f) s = Some r \<Longrightarrow> has_match h f s"
proof -
  assume m: "match_at (LazySpan h f) s = Some r"
  then have p: "prefix h s" and fa: "find_after f (drop (length h) s) = Some r"
    by (auto split: if_splits)
  from p have s: "s = h @ drop (length h) s" by (auto simp: prefix_def)
  from find_after_Some [OF fa] obtain b where "drop (length h) s = b @ f @ r" by blast
  with s have "s = [] @ h @ b @ f @ r" by simp
  then show ?thesis unfolding has_match_iff by blast
qed

lemma match_at_None_no_match_here:
  assumes "match_at (LazySpan h f) s = None"
  shows "\<not> (\<exists>b c. s = h @ b @ f @ c)"
proof
  assume "\<exists>b c. s = h @ b @ f @ c"
  then obtain b c where s: "s = h @ b @ f @ c" by blast
  then have "prefix h s" by simp
  moreover from s have "sublist f (drop (length h) s)" by simp
  ultimately show False using assms by (simp add: find_after_None)
qed

lemma re_sub_no_match:
  "\<not> has_match h f s \<Longrightarrow> re_sub_empty (LazySpan h f) s = s"
proof (induction s)
  case Nil
  then show ?case by simp
next
  case (Cons c cs)
  have n: "match_at (LazySpan h f) (c # cs) = None"
    using Cons.prems match_at_Some_has_match [of h f "c # cs"]
    by (cases "match_at (LazySpan h f) (c # cs)") auto
  have "\<not> has_match h f cs" using Cons.prems has_match_Cons by blast
  with Cons.IH n show ?case by simp
qed

lemma find_after_is_suffix: "find_after w s = Some r \<Longrightarrow> suffix r s"
  using find_after_Some [of w s r] by (auto simp: suffix_def)

lemma re_sub_first_match:
  assumes "h \<noteq> []" and "has_match h f s"
  shows "\<exists>a x r. s = a @ h @ x \<and> find_after f x = Some r
             \<and> re_sub_empty (LazySpan h f) s = a @ re_sub_empty (LazySpan h f) r
             \<and> \<not> sublist h (a @ butlast h)"
  using assms(2)
proof (induction s)
  case Nil
  with assms(1) show ?case by (simp add: has_match_iff)
next
  case (Cons c cs)
  show ?case
  proof (cases "match_at (LazySpan h f) (c # cs)")
    case (Some rest)
    then have p: "prefix h (c # cs)" and fa: "find_after f (drop (length h) (c # cs)) = Some rest"
      by (auto split: if_splits)
    from p have s: "c # cs = [] @ h @ drop (length h) (c # cs)" by (auto simp: prefix_def)
    from find_after_is_suffix [OF fa]
    have "length rest \<le> length (drop (length h) (c # cs))" by (rule suffix_length_le)
    with assms(1) have lt: "length rest < length (c # cs)" by (cases h) auto
    have nh: "\<not> sublist h ([] @ butlast h)"
      using assms(1) by (cases h rule: rev_cases) (auto dest!: sublist_length_le)
    have rs: "re_sub_empty (LazySpan h f) (c # cs) = [] @ re_sub_empty (LazySpan h f) rest"
      using Some lt by simp
    from s fa rs nh show ?thesis by blast
  next
    case None
    have hm: "has_match h f cs"
    proof -
      from Cons.prems obtain a b d where e: "c # cs = a @ h @ b @ f @ d"
        unfolding has_match_iff by blast
      with match_at_None_no_match_here [OF None] have "a \<noteq> []" by auto
      with e obtain a' where "a = c # a'" by (cases a) auto
      with e show ?thesis unfolding has_match_iff by auto
    qed
    from Cons.IH [OF hm] obtain a x r where
      cs: "cs = a @ h @ x" and fa: "find_after f x = Some r"
      and rs: "re_sub_empty (LazySpan h f) cs = a @ re_sub_empty (LazySpan h f) r"
      and nh: "\<not> sublist h (a @ butlast h)" by blast
    have 1: "c # cs = (c # a) @ h @ x" using cs by simp
    have 2: "re_sub_empty (LazySpan h f) (c # cs) = (c # a) @ re_sub_empty (LazySpan h f) r"
      using None rs by simp
    have 3: "\<not> sublist h ((c # a) @ butlast h)"
    proof
      assume "sublist h ((c # a) @ butlast h)"
      with nh have pre: "prefix h (c # a @ butlast h)" by (simp add: sublist_Cons_right)
      have "h = butlast h @ [last h]" using assms(1) by simp
      then have "c # cs = (c # a @ butlast h) @ last h # x"
        using cs by (metis append.assoc append_Cons append_Nil)
      then have "prefix (c # a @ butlast h) (c # cs)" by (metis prefixI)
      with pre have ph: "prefix h (c # cs)" by (rule prefix_order.trans)
      with None have nf: "\<not> sublist f (drop (length h) (c # cs))"
        by (simp add: find_after_None)
      have fx: "sublist f x"
        using fa find_after_None [of f x] by auto
      have "drop (length h) ((c # a @ h) @ x)
              = drop (length h) (c # a @ h) @ drop (length h - length (c # a @ h)) x"
        by (rule drop_append)
      then have "drop (length h) (c # cs) = drop (length h) (c # a @ h) @ x"
        using cs by simp
      then have "sublist x (drop (length h) (c # cs))" by (metis sublist_append_leftI)
      with fx have "sublist f (drop (length h) (c # cs))"
        by (rule sublist_order.order.trans)
      with nf show False by contradiction
    qed
    from 1 fa 2 3 show ?thesis by blast
  qed
qed

lemma split_header_free_sublist:
  "split_header_free h s \<Longrightarrow> sublist s' s \<Longrightarrow> split_header_free h s'"
  unfolding split_header_free_def by (meson sublist_order.order.trans)

lemma re_sub_leaves_no_match:
  assumes h: "h \<noteq> []"
  shows "split_header_free h s \<Longrightarrow> \<not> has_match h f (re_sub_empty (LazySpan h f) s)"
proof (induction "length s" arbitrary: s rule: less_induct)
  case less
  show ?case
  proof (cases "has_match h f s")
    case False
    then show ?thesis by (simp add: re_sub_no_match)
  next
    case True
    from re_sub_first_match [OF h True] obtain a x r where
      s: "s = a @ h @ x" and fa: "find_after f x = Some r"
      and rs: "re_sub_empty (LazySpan h f) s = a @ re_sub_empty (LazySpan h f) r"
      and nh: "\<not> sublist h (a @ butlast h)" by blast
    let ?R = "re_sub_empty (LazySpan h f) r"
    from find_after_is_suffix [OF fa] have rx: "suffix r x" .
    then have "length r \<le> length x" by (rule suffix_length_le)
    with s h have len: "length r < length s" by (cases h) auto
    from rx s have "sublist r s"
      by (metis sublist_append_leftI suffix_imp_sublist sublist_order.order.trans)
    with less.prems have "split_header_free h r" by (rule split_header_free_sublist)
    with less.hyps len have IH: "\<not> has_match h f ?R" by blast
    show ?thesis
    proof
      assume "has_match h f (re_sub_empty (LazySpan h f) s)"
      then obtain a0 b0 d0 where e: "a @ ?R = a0 @ h @ b0 @ f @ d0"
        unfolding rs has_match_iff by blast
      then obtain us where "(a = a0 @ us \<and> us @ ?R = h @ b0 @ f @ d0) \<or> (a @ us = a0 \<and> ?R = us @ h @ b0 @ f @ d0)"
        by (auto simp: append_eq_append_conv2)
      then show False
      proof
        assume "a @ us = a0 \<and> ?R = us @ h @ b0 @ f @ d0"
        then have "has_match h f ?R" unfolding has_match_iff by blast
        with IH show False by contradiction
      next
        assume c: "a = a0 @ us \<and> us @ ?R = h @ b0 @ f @ d0"
        then obtain vs where "(us = h @ vs \<and> vs @ ?R = b0 @ f @ d0) \<or> (us @ vs = h \<and> ?R = vs @ b0 @ f @ d0)"
          by (auto simp: append_eq_append_conv2)
        then show False
        proof
          assume "us = h @ vs \<and> vs @ ?R = b0 @ f @ d0"
          with c have "sublist h a" by auto
          then have "sublist h (a @ butlast h)" by (metis sublist_order.order.trans sublist_append_rightI)
          with nh show False by contradiction
        next
          assume d: "us @ vs = h \<and> ?R = vs @ b0 @ f @ d0"
          show False
          proof (cases "us = []")
            case True
            with d have "has_match h f ?R" unfolding has_match_iff by (metis append_Nil)
            with IH show False by contradiction
          next
            case False
            show False
            proof (cases "vs = []")
              case True
              with d c have "sublist h a" by auto
              then have "sublist h (a @ butlast h)" by (metis sublist_order.order.trans sublist_append_rightI)
              with nh show False by contradiction
            next
              case vs: False
              from d have pu: "us \<in> set (prefixes h)" by (auto simp: in_set_prefixes)
              from d vs have "us \<noteq> h" by auto
              with pu False less.prems have "\<not> sublist (us @ h) s"
                by (auto simp: split_header_free_def)
              moreover from s c have "s = a0 @ (us @ h) @ x" by simp
              then have "sublist (us @ h) s" by (metis sublist_appendI)
              ultimately show False by contradiction
            qed
          qed
        qed
      qed
    qed
  qed
qed

section \<open>Collapsing line feeds and stripping\<close>

lemma collapse_prefix_split:
  "NL \<notin> set w \<Longrightarrow> collapse_newlines s = w @ r' \<Longrightarrow> \<exists>r. s = w @ r \<and> collapse_newlines r = r'"
proof (induction w arbitrary: s)
  case Nil
  then show ?case by simp
next
  case (Cons d w)
  from Cons.prems have d: "d \<noteq> NL" by auto
  from Cons.prems obtain e es where s: "s = e # es" by (cases s) auto
  show ?case
  proof (cases "e = NL \<and> 2 \<le> length (takeWhile isNL es)")
    case True
    with Cons.prems s d show ?thesis by simp
  next
    case False
    with Cons.prems s have "e = d" "collapse_newlines es = w @ r'" by auto
    moreover from Cons.prems have "NL \<notin> set w" by simp
    ultimately show ?thesis using Cons.IH [of es] s by auto
  qed
qed

lemma collapse_split:
  "NL \<notin> set w \<Longrightarrow> w \<noteq> [] \<Longrightarrow> collapse_newlines s = a' @ w @ r' \<Longrightarrow>
     \<exists>a r. s = a @ w @ r \<and> collapse_newlines r = r'"
proof (induction s arbitrary: a' rule: collapse_newlines.induct)
  case 1
  then show ?case by simp
next
  case (2 c cs)
  from "2.prems" obtain d w' where w: "w = d # w'" and d: "d \<noteq> NL" by (cases w) auto
  show ?case
  proof (cases "c = NL \<and> 2 \<le> length (takeWhile isNL cs)")
    case True
    with "2.prems" have e: "NL # NL # collapse_newlines (dropWhile isNL cs) = a' @ w @ r'"
      by simp
    with w d obtain a1 where a1: "a' = NL # a1" by (cases a') auto
    with e w d obtain a2 where a2: "a1 = NL # a2" by (cases a1) auto
    with a1 e have "collapse_newlines (dropWhile isNL cs) = a2 @ w @ r'" by simp
    from "2.IH"(1) [OF True "2.prems"(1,2) this] obtain a r where
      "dropWhile isNL cs = a @ w @ r" "collapse_newlines r = r'" by blast
    moreover have "c # cs = (c # takeWhile isNL cs) @ dropWhile isNL cs" by simp
    ultimately have "c # cs = ((c # takeWhile isNL cs) @ a) @ w @ r" by simp
    with \<open>collapse_newlines r = r'\<close> show ?thesis by blast
  next
    case False
    with "2.prems" have e: "c # collapse_newlines cs = a' @ w @ r'" by simp
    show ?thesis
    proof (cases a')
      case Nil
      with e w have "c = d" "collapse_newlines cs = w' @ r'" by auto
      moreover from "2.prems" w have "NL \<notin> set w'" by simp
      ultimately obtain r where "cs = w' @ r" "collapse_newlines r = r'"
        using collapse_prefix_split by blast
      with \<open>c = d\<close> w have "c # cs = [] @ w @ r" by simp
      with \<open>collapse_newlines r = r'\<close> show ?thesis by blast
    next
      case (Cons x a1)
      with e have "collapse_newlines cs = a1 @ w @ r'" by simp
      from "2.IH"(2) [OF False "2.prems"(1,2) this] obtain a r where
        "cs = a @ w @ r" "collapse_newlines r = r'" by blast
      then have "c # cs = (c # a) @ w @ r" by simp
      with \<open>collapse_newlines r = r'\<close> show ?thesis by blast
    qed
  qed
qed

lemma has_match_collapse:
  assumes "NL \<notin> set h" "h \<noteq> []" "NL \<notin> set f" "f \<noteq> []"
    and "has_match h f (collapse_newlines s)"
  shows "has_match h f s"
proof -
  from assms(5) obtain a' b' c' where "collapse_newlines s = a' @ h @ (b' @ f @ c')"
    unfolding has_match_iff by auto
  from collapse_split [OF assms(1,2) this] obtain a r where
    s: "s = a @ h @ r" and r: "collapse_newlines r = b' @ f @ c'" by blast
  from collapse_split [OF assms(3,4) r] obtain b c where "r = b @ f @ c" by blast
  with s show ?thesis unfolding has_match_iff by blast
qed

lemma collapse_head_run:
  "length (takeWhile isNL (collapse_newlines s)) =
     (if 3 \<le> length (takeWhile isNL s) then 2 else length (takeWhile isNL s))"
proof (induction s rule: collapse_newlines.induct)
  case 1
  then show ?case by simp
next
  case (2 c cs)
  show ?case
  proof (cases "c = NL \<and> 2 \<le> length (takeWhile isNL cs)")
    case True
    have "takeWhile isNL (dropWhile isNL cs) = []"
      by (metis dropWhile_eq_Nil_conv dropWhile_idem takeWhile_eq_Nil_iff hd_dropWhile takeWhile.simps(1) list.collapse takeWhile.simps(2))
    with "2.IH"(1) [OF True] True show ?thesis by simp
  next
    case False
    with "2.IH"(2) [OF False] show ?thesis by auto
  qed
qed

lemma prefix_triple_run:
  "prefix [NL, NL, NL] y \<Longrightarrow> 3 \<le> length (takeWhile isNL y)"
  by (auto simp: prefix_def)

lemma collapse_no_triple_prefix: "\<not> prefix [NL, NL, NL] (collapse_newlines s)"
  using prefix_triple_run [of "collapse_newlines s"] collapse_head_run [of s]
  by (auto split: if_splits)

lemma run_dropWhile_NL: "takeWhile isNL (dropWhile isNL cs) = []"
  by (induction cs) auto

lemma collapse_no_triple: "\<not> sublist [NL, NL, NL] (collapse_newlines s)"
proof (induction s rule: collapse_newlines.induct)
  case 1
  then show ?case by simp
next
  case (2 c cs)
  have np: "\<not> prefix [NL, NL, NL] (collapse_newlines (c # cs))" by (rule collapse_no_triple_prefix)
  show ?case
  proof (cases "c = NL \<and> 2 \<le> length (takeWhile isNL cs)")
    case True
    let ?X = "collapse_newlines (dropWhile isNL cs)"
    have eq: "collapse_newlines (c # cs) = NL # NL # ?X" using True by simp
    have IH: "\<not> sublist [NL, NL, NL] ?X" using "2.IH"(1) [OF True] .
    have "length (takeWhile isNL ?X) = 0"
      using collapse_head_run [of "dropWhile isNL cs"] by (simp add: run_dropWhile_NL)
    then have "\<not> prefix [NL, NL, NL] (NL # ?X)" by (auto simp: prefix_def)
    with IH have "\<not> sublist [NL, NL, NL] (NL # ?X)"
      using sublist_Cons_right [of "[NL, NL, NL]" NL ?X] by blast
    with np show ?thesis
      unfolding eq using sublist_Cons_right [of "[NL, NL, NL]" NL "NL # ?X"] by blast
  next
    case False
    have eq: "collapse_newlines (c # cs) = c # collapse_newlines cs" using False by auto
    from "2.IH"(2) [OF False] np show ?thesis
      unfolding eq using sublist_Cons_right [of "[NL, NL, NL]" c "collapse_newlines cs"] by blast
  qed
qed

lemma run_two_prefix:
  assumes "2 \<le> length (takeWhile isNL cs)"
  shows "prefix [NL, NL] cs"
proof -
  from assms obtain x y zs where tw: "takeWhile isNL cs = x # y # zs"
    by (metis Suc_le_length_iff numeral_2_eq_2)
  have "\<forall>z \<in> set (takeWhile isNL cs). z = NL" by (auto dest: set_takeWhileD)
  with tw have "x = NL" "y = NL" by auto
  moreover have "cs = takeWhile isNL cs @ dropWhile isNL cs" by simp
  ultimately have "cs = [NL, NL] @ (zs @ dropWhile isNL cs)" using tw by simp
  then show ?thesis by (metis prefixI)
qed

lemma collapse_id: "\<not> sublist [NL, NL, NL] s \<Longrightarrow> collapse_newlines s = s"
proof (induction s)
  case Nil
  then show ?case by simp
next
  case (Cons c cs)
  have "\<not> (c = NL \<and> 2 \<le> length (takeWhile isNL cs))"
  proof
    assume a: "c = NL \<and> 2 \<le> length (takeWhile isNL cs)"
    with run_two_prefix [of cs] have "prefix [NL, NL, NL] (c # cs)" by simp
    then have "sublist [NL, NL, NL] (c # cs)" by (rule prefix_imp_sublist)
    with Cons.prems show False by contradiction
  qed
  moreover from Cons.prems have "\<not> sublist [NL, NL, NL] cs" by (simp add: sublist_Cons_right)
  ultimately show ?case using Cons.IH by auto
qed

lemma strip_sublist: "sublist (strip s) s"
proof -
  let ?d = "dropWhile is_space s"
  have "suffix ?d s" by (rule suffix_dropWhile)
  moreover have "suffix (dropWhile is_space (rev ?d)) (rev ?d)" by (rule suffix_dropWhile)
  then have "prefix (strip s) ?d" unfolding strip_def by (simp add: suffix_to_prefix)
  ultimately show ?thesis
    by (meson prefix_imp_sublist suffix_imp_sublist sublist_order.order.trans)
qed

lemma strip_fixed:
  assumes "x = [] \<or> (\<not> is_space (hd x) \<and> \<not> is_space (last x))"
  shows "strip x = x"
proof (cases "x = []")
  case True
  then show ?thesis by (simp add: strip_def)
next
  case False
  with assms have h: "\<not> is_space (hd x)" and l: "\<not> is_space (last x)" by auto
  from False h have 1: "dropWhile is_space x = x" by (cases x) auto
  from False l have "\<not> is_space (hd (rev x))" by (simp add: hd_rev)
  with False have 2: "dropWhile is_space (rev x) = rev x" by (cases "rev x") auto
  show ?thesis by (simp add: strip_def 1 2)
qed

lemma strip_ends:
  "strip s = [] \<or> (\<not> is_space (hd (strip s)) \<and> \<not> is_space (last (strip s)))"
proof (cases "strip s = []")
  case True
  then show ?thesis by simp
next
  case False
  let ?d = "dropWhile is_space s"
  let ?e = "dropWhile is_space (rev ?d)"
  have s: "strip s = rev ?e" by (simp add: strip_def)
  with False have e: "?e \<noteq> []" by simp
  then have "\<not> is_space (hd ?e)" by (rule hd_dropWhile)
  with e s have l: "\<not> is_space (last (strip s))" by (simp add: last_rev)
  have "suffix ?e (rev ?d)" by (rule suffix_dropWhile)
  then have p: "prefix (strip s) ?d" unfolding s by (simp add: suffix_to_prefix)
  with False have d: "?d \<noteq> []" by (metis prefix_Nil)
  then have "\<not> is_space (hd ?d)" by (rule hd_dropWhile)
  moreover from p False have "hd (strip s) = hd ?d" by (cases "strip s") (auto simp: prefix_def)
  ultimately show ?thesis using l by simp
qed

lemma strip_idem: "strip (strip s) = strip s"
  using strip_ends [of s] by (rule strip_fixed)

section \<open>Cleaning one text\<close>

lemma not_name_char_special:
  "\<not> name_char NL" "\<not> name_char LT" "\<not> name_char GT" "\<not> name_char SLASH"
  by (simp_all add: name_char_def)

lemma name_no_special:
  assumes "list_all name_char n"
  shows "NL \<notin> set n" "LT \<notin> set n" "GT \<notin> set n" "SLASH \<notin> set n"
  using assms not_name_char_special by (auto simp: list_all_iff)

lemma tag_wf_delims:
  assumes "tag_wf t"
  shows "header t \<noteq> []" "footer t \<noteq> []" "NL \<notin> set (header t)" "NL \<notin> set (footer t)"
  using assms name_no_special(1) [of "tag_name t"] by (auto simp: tag_wf_def)

lemma has_match_sublists: "has_match h f s \<Longrightarrow> sublist h s \<and> sublist f s"
proof -
  assume "has_match h f s"
  then obtain a b c where s: "s = a @ h @ b @ f @ c" unfolding has_match_iff by blast
  then have "s = a @ h @ (b @ f @ c)" "s = (a @ h @ b) @ f @ c" by simp_all
  then show ?thesis unfolding sublist_def by blast
qed

lemma clean_string_no_match:
  assumes wf: "tag_wf t" and sf: "split_header_free (header t) s"
  shows "\<not> has_match (header t) (footer t) (clean_string s (build_cleanup_pattern t))"
proof
  let ?h = "header t" and ?f = "footer t"
  let ?R = "re_sub_empty (LazySpan ?h ?f) s"
  assume "has_match ?h ?f (clean_string s (build_cleanup_pattern t))"
  then have "has_match ?h ?f (strip (collapse_newlines ?R))"
    by (simp add: clean_string_def build_cleanup_pattern_def)
  then have cm: "has_match ?h ?f (collapse_newlines ?R)"
    using strip_sublist by (rule has_match_sublist)
  note d = tag_wf_delims [OF wf]
  have "has_match ?h ?f ?R"
    by (rule has_match_collapse [OF d(3) d(1) d(4) d(2) cm])
  moreover have "\<not> has_match ?h ?f ?R"
    using tag_wf_delims(1) [OF wf] sf by (rule re_sub_leaves_no_match)
  ultimately show False by contradiction
qed

lemma sublist_triple_mono:
  "sublist y x \<Longrightarrow> \<not> sublist [NL, NL, NL] x \<Longrightarrow> \<not> sublist [NL, NL, NL] y"
  by (meson sublist_order.order.trans)

text \<open>
  C2 (amended). \<open>_clean_string\<close> is idempotent on every text in which no occurrence of
  the tag's header is immediately preceded by a non-empty proper prefix of that header;
  other tags' delimiters in the text do not matter.
\<close>

theorem clean_string_idempotent:
  assumes wf: "tag_wf t" and sf: "split_header_free (header t) s"
  shows "clean_string (clean_string s (build_cleanup_pattern t)) (build_cleanup_pattern t)
           = clean_string s (build_cleanup_pattern t)"
proof -
  let ?p = "build_cleanup_pattern t"
  let ?T = "clean_string s ?p"
  let ?C = "collapse_newlines (re_sub_empty ?p s)"
  have T: "?T = strip ?C" by (simp add: clean_string_def)
  have "\<not> has_match (header t) (footer t) ?T" using wf sf by (rule clean_string_no_match)
  then have 1: "re_sub_empty ?p ?T = ?T"
    unfolding build_cleanup_pattern_def by (rule re_sub_no_match)
  have "sublist ?T ?C" unfolding T by (rule strip_sublist)
  then have "\<not> sublist [NL, NL, NL] ?T"
    using collapse_no_triple by (rule sublist_triple_mono)
  then have 2: "collapse_newlines ?T = ?T" by (rule collapse_id)
  have 3: "strip ?T = ?T" unfolding T by (rule strip_idem)
  have "clean_string ?T ?p = strip (collapse_newlines (re_sub_empty ?p ?T))"
    by (simp add: clean_string_def)
  also have "\<dots> = ?T" by (simp only: 1 2 3)
  finally show ?thesis .
qed

theorem clean_string_idempotent_witness:
  "clean_string (clean_string ''<Foo>a</Foo> hi <Bar>x</Bar> <Foo>b</Foo>''
       (build_cleanup_pattern (make_tag ''tag_1'' ''Foo'' ''f'' ''user_message_after'')))
     (build_cleanup_pattern (make_tag ''tag_1'' ''Foo'' ''f'' ''user_message_after''))
   = clean_string ''<Foo>a</Foo> hi <Bar>x</Bar> <Foo>b</Foo>''
       (build_cleanup_pattern (make_tag ''tag_1'' ''Foo'' ''f'' ''user_message_after''))"
proof -
  let ?t = "make_tag ''tag_1'' ''Foo'' ''f'' ''user_message_after''"
  have wf: "tag_wf ?t" by code_simp
  have sf: "split_header_free (header ?t) ''<Foo>a</Foo> hi <Bar>x</Bar> <Foo>b</Foo>''"
    by code_simp
  from wf sf show ?thesis by (rule clean_string_idempotent)
qed

text \<open>
  C2 as stated fails: a text without any other tag's delimiters in which a block sits
  inside a split header. The first pass joins the pieces into a new block, which the
  second pass removes.
\<close>

theorem clean_string_not_idempotent:
  "clean_string ''<Fo<Foo>x</Foo>o>y</Foo>''
     (build_cleanup_pattern (make_tag ''tag_1'' ''Foo'' ''f'' ''user_message_after''))
     = ''<Foo>y</Foo>''
   \<and> clean_string (clean_string ''<Fo<Foo>x</Foo>o>y</Foo>''
         (build_cleanup_pattern (make_tag ''tag_1'' ''Foo'' ''f'' ''user_message_after'')))
       (build_cleanup_pattern (make_tag ''tag_1'' ''Foo'' ''f'' ''user_message_after''))
     = []"
  by code_simp

section \<open>Cleaning the request\<close>

lemma kept_text_no_match:
  assumes "tag_wf t" "split_header_free (header t) s"
  shows "\<not> has_match (header t) (footer t) (kept_text t s)"
proof (cases "sublist (header t) s \<and> sublist (footer t) s")
  case True
  then have "kept_text t s = clean_string s (build_cleanup_pattern t)"
    unfolding kept_text_def by (rule if_P)
  with clean_string_no_match [OF assms] show ?thesis by simp
next
  case False
  then have "kept_text t s = s" unfolding kept_text_def by (rule if_not_P)
  moreover from False have "\<not> has_match (header t) (footer t) s"
    using has_match_sublists by blast
  ultimately show ?thesis by simp
qed

lemma clean_prompt_field_texts:
  assumes "header t \<noteq> []"
  shows "fst (clean_prompt_field t fld) = map_option (kept_text t) fld"
proof (cases fld)
  case None
  then show ?thesis by (simp add: clean_prompt_field_def)
next
  case (Some s)
  show ?thesis
  proof (cases "sublist (header t) s \<and> sublist (footer t) s")
    case True
    with assms have "s \<noteq> []" by auto
    with True Some show ?thesis by (simp add: clean_prompt_field_def kept_text_def Let_def)
  next
    case False
    then have "kept_text t s = s" unfolding kept_text_def by (rule if_not_P)
    moreover from False have "fst (clean_prompt_field t (Some s)) = Some s"
      by (auto simp: clean_prompt_field_def)
    ultimately show ?thesis using Some by simp
  qed
qed


lemma clean_part_kept:
  assumes h: "header t \<noteq> []" and c: "clean_part t p = (Some q, ch, n)"
  shows "part_texts q = map (kept_text t) (part_texts p)"
proof (cases "str_text_part p")
  case False
  from other_part_passes [OF h False] c have "q = p" by simp
  moreover from False have "part_texts p = []"
    by (cases p) (auto simp: str_text_part_def split: option.splits pyval.splits)
  ultimately show ?thesis by simp
next
  case True
  then obtain pd s where p: "p = PDict pd" and ty: "map_of pd ''type'' = Some (PStr ''text'')"
    and tx: "map_of pd ''text'' = Some (PStr s)"
    by (cases p) (auto simp: str_text_part_def split: option.splits pyval.splits)
  have pt: "part_texts p = [s]" using p ty tx by simp
  show ?thesis
  proof (cases "sublist (header t) s \<and> sublist (footer t) s")
    case False
    with c p ty tx have "q = p" by (auto simp: clean_part_def)
    moreover from False have "kept_text t s = s" unfolding kept_text_def by (rule if_not_P)
    ultimately show ?thesis using pt by simp
  next
    case g: True
    let ?c = "clean_string s (build_cleanup_pattern t)"
    have k: "kept_text t s = ?c" using g unfolding kept_text_def by (rule if_P)
    show ?thesis
    proof (cases "?c = s")
      case True
      with c p ty tx g have "q = p" by (auto simp: clean_part_def Let_def split: if_splits)
      with pt k True show ?thesis by simp
    next
      case False
      with c p ty tx g have q: "q = PDict (AList.update ''text'' (PStr ?c) pd)"
        by (auto simp: clean_part_def Let_def split: if_splits)
      have "part_texts q = [?c]" unfolding q using ty by (simp add: update_conv')
      with pt k show ?thesis by simp
    qed
  qed
qed

lemma clean_parts_kept:
  assumes h: "header t \<noteq> []"
  shows "set (concat (map part_texts (fst (clean_parts t ps))))
           \<subseteq> kept_text t ` set (concat (map part_texts ps))"
proof (induction ps)
  case Nil
  then show ?case by simp
next
  case (Cons p ps)
  obtain r ch n where cp: "clean_part t p = (r, ch, n)" by (cases "clean_part t p") auto
  obtain rs chs ns where cps: "clean_parts t ps = (rs, chs, ns)" by (cases "clean_parts t ps") auto
  from Cons.IH cps
  have IH: "set (concat (map part_texts rs)) \<subseteq> kept_text t ` set (concat (map part_texts ps))"
    by simp
  have mono: "kept_text t ` set (concat (map part_texts ps))
                \<subseteq> kept_text t ` set (concat (map part_texts (p # ps)))"
    by (rule image_mono) auto
  show ?case
  proof (cases r)
    case None
    with cp cps have f: "fst (clean_parts t (p # ps)) = rs" by simp
    show ?thesis unfolding f using IH mono by (rule subset_trans)
  next
    case (Some q)
    with cp have pq: "part_texts q = map (kept_text t) (part_texts p)"
      using clean_part_kept [OF h] by simp
    from Some cp cps have f: "fst (clean_parts t (p # ps)) = q # rs" by simp
    have "set (concat (map part_texts (q # rs)))
            = kept_text t ` set (part_texts p) \<union> set (concat (map part_texts rs))"
      using pq by simp
    also have "\<dots> \<subseteq> kept_text t ` set (part_texts p) \<union> kept_text t ` set (concat (map part_texts ps))"
      using IH by blast
    also have "\<dots> = kept_text t ` set (concat (map part_texts (p # ps)))"
      by (simp add: image_Un)
    finally show ?thesis unfolding f .
  qed
qed


lemma clean_msg_kept:
  assumes h: "header t \<noteq> []" and c: "clean_msg t m = (Some m', n)"
  shows "set (msg_texts m') \<subseteq> kept_text t ` set (msg_texts m)"
proof (cases m)
  case (PStr s)
  show ?thesis
  proof (cases "sublist (header t) s \<and> sublist (footer t) s")
    case False
    with c PStr have "m' = m" by (auto simp: clean_msg_def)
    moreover from False have "kept_text t s = s" unfolding kept_text_def by (rule if_not_P)
    ultimately show ?thesis using PStr by simp
  next
    case g: True
    let ?c = "clean_string s (build_cleanup_pattern t)"
    have k: "kept_text t s = ?c" using g unfolding kept_text_def by (rule if_P)
    from c PStr g have "m' = PStr ?c"
      by (auto simp: clean_msg_def Let_def split: if_splits)
    with k PStr show ?thesis by simp
  qed
next
  case (PDict d)
  show ?thesis
  proof (cases "map_of d ''content''")
    case None
    with c PDict h have "m' = m" by (auto simp: clean_msg_def)
    with PDict None show ?thesis by simp
  next
    case (Some v)
    show ?thesis
    proof (cases v)
      case (PStr s)
      have mt: "msg_texts m = [s]" using PDict Some PStr by simp
      show ?thesis
      proof (cases "sublist (header t) s \<and> sublist (footer t) s")
        case False
        with c PDict Some PStr have "m' = m" by (auto simp: clean_msg_def)
        moreover from False have "kept_text t s = s" unfolding kept_text_def by (rule if_not_P)
        ultimately show ?thesis using mt by simp
      next
        case g: True
        let ?c = "clean_string s (build_cleanup_pattern t)"
        have k: "kept_text t s = ?c" using g unfolding kept_text_def by (rule if_P)
        show ?thesis
        proof (cases "?c = s")
          case True
          with c PDict Some PStr g have "m' = m"
            by (auto simp: clean_msg_def Let_def split: if_splits)
          with mt k True show ?thesis by simp
        next
          case False
          with c PDict Some PStr g have "m' = PDict (AList.update ''content'' (PStr ?c) d)"
            by (auto simp: clean_msg_def Let_def split: if_splits)
          then have "msg_texts m' = [?c]" by (simp add: update_conv')
          with mt k show ?thesis by simp
        qed
      qed
    next
      case (PList ps)
      obtain rs chs ns where cps: "clean_parts t ps = (rs, chs, ns)"
        by (cases "clean_parts t ps") auto
      from clean_parts_kept [OF h, of ps] cps
      have sub: "set (concat (map part_texts rs)) \<subseteq> kept_text t ` set (concat (map part_texts ps))"
        by simp
      have mt: "msg_texts m = concat (map part_texts ps)" using PDict Some PList by simp
      have "msg_texts m' = concat (map part_texts rs)"
      proof (cases chs)
        case True
        with c PDict Some PList cps have "m' = PDict (AList.update ''content'' (PList rs) d)"
          by (auto simp: clean_msg_def split: if_splits)
        then show ?thesis by (simp add: update_conv')
      next
        case False
        with cps clean_parts_unchanged [of t ps] have "rs = ps" by simp
        moreover from False c PDict Some PList cps have "m' = m"
          by (auto simp: clean_msg_def split: if_splits)
        ultimately show ?thesis using mt by simp
      qed
      with sub mt show ?thesis by simp
    next
      case PNone
      with c PDict Some show ?thesis by (simp add: clean_msg_def)
    next
      case (PBool b)
      with c PDict Some show ?thesis by (simp add: clean_msg_def)
    next
      case (PInt i)
      with c PDict Some show ?thesis by (simp add: clean_msg_def)
    next
      case (PDict d')
      with c \<open>m = PDict d\<close> Some show ?thesis by (simp add: clean_msg_def)
    qed
  qed
next
  case PNone
  with c show ?thesis by (auto simp: clean_msg_def)
next
  case (PBool b)
  with c show ?thesis by (auto simp: clean_msg_def)
next
  case (PInt i)
  with c show ?thesis by (auto simp: clean_msg_def)
next
  case (PList l)
  with c show ?thesis by (auto simp: clean_msg_def)
qed

lemma clean_contexts_kept:
  assumes h: "header t \<noteq> []"
  shows "set (concat (map msg_texts (fst (clean_contexts t ms))))
           \<subseteq> kept_text t ` set (concat (map msg_texts ms))"
proof (induction ms)
  case Nil
  then show ?case by simp
next
  case (Cons m ms)
  obtain r n where cm: "clean_msg t m = (r, n)" by (cases "clean_msg t m") auto
  obtain rs ns where cms: "clean_contexts t ms = (rs, ns)" by (cases "clean_contexts t ms") auto
  from Cons.IH cms
  have IH: "set (concat (map msg_texts rs)) \<subseteq> kept_text t ` set (concat (map msg_texts ms))"
    by simp
  have mono: "kept_text t ` set (concat (map msg_texts ms))
                \<subseteq> kept_text t ` set (concat (map msg_texts (m # ms)))"
    by (rule image_mono) auto
  show ?case
  proof (cases r)
    case None
    with cm cms have f: "fst (clean_contexts t (m # ms)) = rs" by simp
    show ?thesis unfolding f using IH mono by (rule subset_trans)
  next
    case (Some m')
    with cm have mm: "set (msg_texts m') \<subseteq> kept_text t ` set (msg_texts m)"
      using clean_msg_kept [OF h] by simp
    from Some cm cms have f: "fst (clean_contexts t (m # ms)) = m' # rs" by simp
    have "set (concat (map msg_texts (m' # rs)))
            = set (msg_texts m') \<union> set (concat (map msg_texts rs))"
      by simp
    also have "\<dots> \<subseteq> kept_text t ` set (msg_texts m) \<union> kept_text t ` set (concat (map msg_texts ms))"
      using IH mm by blast
    also have "\<dots> = kept_text t ` set (concat (map msg_texts (m # ms)))"
      by (simp add: image_Un)
    finally show ?thesis unfolding f .
  qed
qed

lemma remove_tags_fields:
  "system_prompt (fst (remove_tags_from_context r t)) = fst (clean_prompt_field t (system_prompt r))"
  "prompt (fst (remove_tags_from_context r t)) = fst (clean_prompt_field t (prompt r))"
  "contexts (fst (remove_tags_from_context r t)) = fst (clean_contexts t (contexts r))"
  by (cases "contexts r"; simp add: remove_tags_from_context_def split: prod.splits)+

lemma remove_tags_kept:
  assumes h: "header t \<noteq> []"
  shows "set (req_texts (fst (remove_tags_from_context r t))) \<subseteq> kept_text t ` set (req_texts r)"
proof
  fix x assume "x \<in> set (req_texts (fst (remove_tags_from_context r t)))"
  then consider
      (sp) "system_prompt (fst (remove_tags_from_context r t)) = Some x"
    | (pr) "prompt (fst (remove_tags_from_context r t)) = Some x"
    | (cs) "x \<in> set (concat (map msg_texts (contexts (fst (remove_tags_from_context r t)))))"
    unfolding req_texts_def by (auto split: option.splits)
  then show "x \<in> kept_text t ` set (req_texts r)"
  proof cases
    case sp
    then have "map_option (kept_text t) (system_prompt r) = Some x"
      by (simp add: remove_tags_fields clean_prompt_field_texts [OF h])
    then obtain s where "system_prompt r = Some s" "x = kept_text t s" by auto
    then show ?thesis by (simp add: req_texts_def)
  next
    case pr
    then have "map_option (kept_text t) (prompt r) = Some x"
      by (simp add: remove_tags_fields clean_prompt_field_texts [OF h])
    then obtain s where "prompt r = Some s" "x = kept_text t s" by auto
    then show ?thesis by (simp add: req_texts_def)
  next
    case cs
    then have "x \<in> kept_text t ` set (concat (map msg_texts (contexts r)))"
      using clean_contexts_kept [OF h, of "contexts r"] by (auto simp: remove_tags_fields)
    then show ?thesis by (auto simp: req_texts_def)
  qed
qed

text \<open>
  C1 (amended). When no visited text of the request has a header of the tag immediately
  preceded by a non-empty proper prefix of that header, then after
  \<open>_remove_tags_from_context\<close> no text left in \<open>system_prompt\<close>, \<open>prompt\<close> or a text
  surface of the history contains the tag's header followed, later, by the tag's footer.
\<close>

theorem cleanup_leaves_no_span:
  assumes wf: "tag_wf t"
    and sf: "\<forall>s \<in> set (req_texts r). split_header_free (header t) s"
  shows "\<forall>x \<in> set (req_texts (fst (remove_tags_from_context r t))).
           \<not> has_match (header t) (footer t) x"
proof
  fix x assume "x \<in> set (req_texts (fst (remove_tags_from_context r t)))"
  with remove_tags_kept [OF tag_wf_delims(1) [OF wf]]
  obtain s where "s \<in> set (req_texts r)" "x = kept_text t s" by blast
  with sf wf show "\<not> has_match (header t) (footer t) x"
    by (simp add: kept_text_no_match)
qed

theorem cleanup_leaves_no_span_witness:
  "req_texts (fst (remove_tags_from_context
        \<lparr>system_prompt = Some ''S <Foo>a</Foo>'', prompt = Some ''</Foo> <Foo>x</Foo> Hi'',
         contexts = [PStr ''<Foo>only</Foo>'',
                     PDict [(''role'', PStr ''user''), (''content'', PStr ''<Foo>old</Foo> Hi'')]]\<rparr>
        (make_tag ''tag_1'' ''Foo'' ''f'' ''user_message_after'')))
     = [''S'', ''</Foo>  Hi'', ''Hi'']
   \<and> \<not> has_match ''<Foo>'' ''</Foo>'' ''S''
   \<and> \<not> has_match ''<Foo>'' ''</Foo>'' ''</Foo>  Hi''
   \<and> \<not> has_match ''<Foo>'' ''</Foo>'' ''Hi''"
proof -
  let ?t = "make_tag ''tag_1'' ''Foo'' ''f'' ''user_message_after''"
  let ?r = "\<lparr>system_prompt = Some ''S <Foo>a</Foo>'', prompt = Some ''</Foo> <Foo>x</Foo> Hi'',
         contexts = [PStr ''<Foo>only</Foo>'',
                     PDict [(''role'', PStr ''user''), (''content'', PStr ''<Foo>old</Foo> Hi'')]]\<rparr>"
  have wf: "tag_wf ?t" by code_simp
  have sf: "\<forall>s \<in> set (req_texts ?r). split_header_free (header ?t) s" by code_simp
  have e: "req_texts (fst (remove_tags_from_context ?r ?t)) = [''S'', ''</Foo>  Hi'', ''Hi'']"
    by code_simp
  have h: "header ?t = ''<Foo>''" and f: "footer ?t = ''</Foo>''"
    by (simp_all add: make_tag_def)
  from cleanup_leaves_no_span [OF wf sf]
  have "\<forall>x \<in> set [''S'', ''</Foo>  Hi'', ''Hi'']. \<not> has_match ''<Foo>'' ''</Foo>'' x"
    unfolding e h f .
  then have "\<not> has_match ''<Foo>'' ''</Foo>'' ''S''
      \<and> \<not> has_match ''<Foo>'' ''</Foo>'' ''</Foo>  Hi''
      \<and> \<not> has_match ''<Foo>'' ''</Foo>'' ''Hi''"
    by (simp only: list.set ball_simps simp_thms)
  with e show ?thesis by (rule conjI)
qed

text \<open>
  C1 as stated fails. A prompt in which the footer precedes the header is left as it is
  and still contains both; and a block inside a split header leaves a whole block behind.
\<close>

theorem cleanup_leaves_both_delimiters:
  "prompt (fst (remove_tags_from_context
      \<lparr>system_prompt = None, prompt = Some ''</Foo><Foo>'', contexts = []\<rparr>
      (make_tag ''tag_1'' ''Foo'' ''f'' ''user_message_after''))) = Some ''</Foo><Foo>''
   \<and> sublist ''<Foo>'' ''</Foo><Foo>'' \<and> sublist ''</Foo>'' ''</Foo><Foo>''
   \<and> prompt (fst (remove_tags_from_context
      \<lparr>system_prompt = None, prompt = Some ''<Fo<Foo>x</Foo>o>y</Foo>'', contexts = []\<rparr>
      (make_tag ''tag_1'' ''Foo'' ''f'' ''user_message_after''))) = Some ''<Foo>y</Foo>''
   \<and> sublist ''<Foo>'' ''<Foo>y</Foo>'' \<and> sublist ''</Foo>'' ''<Foo>y</Foo>''"
  by code_simp

section \<open>Injection followed by cleanup of the same tag\<close>

lemma prefix_cut:
  "c \<notin> set w \<Longrightarrow> prefix w (a @ c # b) \<Longrightarrow> prefix w a"
proof (induction a arbitrary: w)
  case Nil
  then show ?case by (cases w) auto
next
  case (Cons x a)
  then show ?case by (cases w) auto
qed

lemma sublist_line_split:
  assumes "c \<notin> set w"
  shows "sublist w (a @ c # b) \<longleftrightarrow> sublist w a \<or> sublist w b"
proof (induction a)
  case Nil
  have "prefix w (c # b) \<longleftrightarrow> w = []" using assms by (cases w) auto
  then show ?case by (auto simp: sublist_Cons_right)
next
  case (Cons x a)
  have "prefix w (x # a @ c # b) \<longleftrightarrow> prefix w (x # a)"
  proof
    assume "prefix w (x # a @ c # b)"
    then have "prefix w ((x # a) @ c # b)" by simp
    with assms show "prefix w (x # a)" by (rule prefix_cut)
  next
    assume "prefix w (x # a)"
    then have "prefix w ((x # a) @ c # b)" by (rule prefix_prefix)
    then show "prefix w (x # a @ c # b)" by simp
  qed
  with Cons show ?case
    using sublist_Cons_right [of w x "a @ c # b"] sublist_Cons_right [of w x a] by auto
qed

lemma find_after_first:
  assumes "x \<notin> set w'"
  shows "\<not> sublist (x # w') b \<Longrightarrow> find_after (x # w') (b @ (x # w') @ r) = Some r"
proof (induction b)
  case Nil
  then show ?case by simp
next
  case (Cons c b)
  let ?w = "x # w'"
  have np: "\<not> prefix ?w (c # b @ ?w @ r)"
  proof
    assume "prefix ?w (c # b @ ?w @ r)"
    then have "prefix ?w ((c # b) @ (?w @ r))" by (simp only: append_Cons)
    then consider "prefix ?w (c # b)" | us where "?w = (c # b) @ us" "prefix us (?w @ r)"
      unfolding prefix_append by blast
    then show False
    proof cases
      case 1
      then have "sublist ?w (c # b)" by (rule prefix_imp_sublist)
      with Cons.prems show False by contradiction
    next
      case 2
      show False
      proof (cases us)
        case Nil
        with 2 have "?w = c # b" by simp
        with Cons.prems show False by simp
      next
        case (Cons u us')
        with 2(2) have "u = x" by simp
        with Cons 2(1) have "x \<in> set w'" by auto
        with assms show False by contradiction
      qed
    qed
  qed
  from Cons.prems have "\<not> sublist ?w b" by (simp add: sublist_Cons_right)
  then have IH: "find_after ?w (b @ ?w @ r) = Some r" by (rule Cons.IH)
  have "find_after ?w (c # (b @ ?w @ r)) =
          (if prefix ?w (c # (b @ ?w @ r)) then Some (drop (length ?w) (c # (b @ ?w @ r)))
           else find_after ?w (b @ ?w @ r))"
    by (rule find_after.simps(2))
  also have "\<dots> = find_after ?w (b @ ?w @ r)" by (rule if_not_P [OF np])
  finally show ?case using IH by (simp only: append_Cons)
qed

lemma re_sub_block:
  assumes "h \<noteq> []" "find_after f x = Some r"
  shows "re_sub_empty (LazySpan h f) (h @ x) = re_sub_empty (LazySpan h f) r"
proof -
  from assms(1) obtain c cs where hx: "h @ x = c # cs" by (cases h) auto
  have m: "match_at (LazySpan h f) (h @ x) = Some r" using assms(2) by simp
  from find_after_is_suffix [OF assms(2)] have "length r \<le> length x" by (rule suffix_length_le)
  with assms(1) have "length r < length (h @ x)" by (cases h) auto
  with m show ?thesis unfolding hx by simp
qed

lemma tag_wf_shape:
  assumes "tag_wf t"
  shows "header t = LT # tag_name t @ [GT]" "footer t = LT # (SLASH # tag_name t @ [GT])"
    "LT \<notin> set (tag_name t @ [GT])" "LT \<notin> set (SLASH # tag_name t @ [GT])"
  using assms name_no_special(2) [of "tag_name t"] by (auto simp: tag_wf_def)

lemma re_sub_rendered:
  assumes wf: "tag_wf t" and nf: "\<not> sublist (footer t) (content t)"
  shows "re_sub_empty (build_cleanup_pattern t) (format_tag t @ r)
           = re_sub_empty (build_cleanup_pattern t) (NL # r)"
proof -
  let ?h = "header t" and ?f = "footer t" and ?c = "content t"
  note d = tag_wf_delims [OF wf]
  note s = tag_wf_shape [OF wf]
  have l1: "sublist ?f (?c @ NL # []) \<longleftrightarrow> sublist ?f ?c \<or> sublist ?f []"
    by (rule sublist_line_split [OF d(4)])
  have l2: "sublist ?f ([] @ NL # (?c @ [NL])) \<longleftrightarrow> sublist ?f [] \<or> sublist ?f (?c @ [NL])"
    by (rule sublist_line_split [OF d(4)])
  from l1 l2 nf d(2) have "\<not> sublist ?f (NL # ?c @ [NL])" by simp
  then have 2: "\<not> sublist (LT # (SLASH # tag_name t @ [GT])) (NL # ?c @ [NL])"
    unfolding s(2) .
  have "find_after (LT # (SLASH # tag_name t @ [GT]))
          ((NL # ?c @ [NL]) @ (LT # (SLASH # tag_name t @ [GT])) @ (NL # r)) = Some (NL # r)"
    using s(4) 2 by (rule find_after_first)
  then have fa: "find_after ?f ((NL # ?c @ [NL]) @ ?f @ (NL # r)) = Some (NL # r)"
    unfolding s(2) .
  have "format_tag t @ r = ?h @ ((NL # ?c @ [NL]) @ ?f @ (NL # r))"
    by (simp add: format_tag_def)
  then show ?thesis
    unfolding build_cleanup_pattern_def using re_sub_block [OF d(1) fa] by simp
qed

lemma re_sub_newlines:
  assumes wf: "tag_wf t"
  shows "re_sub_empty (build_cleanup_pattern t) (NL # cs) = NL # re_sub_empty (build_cleanup_pattern t) cs"
  unfolding build_cleanup_pattern_def tag_wf_shape(1) [OF wf] by simp

lemma strip_newlines2: "strip [NL, NL] = []"
  by (simp add: strip_def is_space_def)

lemma cleanup_keeps_empty_prompt:
  "or_empty (prompt r) = [] \<Longrightarrow> prompt (fst (remove_tags_from_context r t)) = prompt r"
  by (cases "prompt r") (auto simp: remove_tags_fields clean_prompt_field_def or_empty_def)

text \<open>
  C6 (amended). For a tag whose content does not contain the tag's own footer: when the
  hook runs with this tag alone on a request whose prompt is empty (\<open>None\<close> or the empty
  string), \<open>_clean_string\<close> with the tag's pattern turns the resulting prompt back into
  the empty text, which is the prior prompt.
\<close>

theorem inject_then_clean_round_trip:
  assumes wf: "tag_wf t" and pos: "position t \<in> set recognized_positions"
    and nf: "\<not> sublist (footer t) (content t)"
    and e: "or_empty (prompt r) = []"
  shows "clean_string (or_empty (prompt (handle_inject_tags [t] r))) (build_cleanup_pattern t)
           = or_empty (prompt r)"
proof -
  let ?p = "build_cleanup_pattern t"
  let ?r1 = "fst (remove_tags_from_context r t)"
  have h: "handle_inject_tags [t] r = inject_phase [t] ?r1"
    by (simp add: handle_inject_tags_def split: prod.splits)
  have p1: "or_empty (prompt ?r1) = []"
    using e by (simp add: cleanup_keeps_empty_prompt)
  have rec: "\<forall>u \<in> set [t]. position u \<in> set recognized_positions" using pos by simp
  note comp = inject_phase_prompt [OF rec, of ?r1]
  have fmt: "header t @ [NL] @ content t @ [NL] @ footer t @ [NL] = format_tag t"
    by (simp add: format_tag_def)
  have n3: "re_sub_empty ?p [NL, NL, NL] = [NL, NL, NL]"
    by (simp only: re_sub_newlines [OF wf] re_sub_empty.simps(1))
  have c3: "collapse_newlines [NL, NL, NL] = [NL, NL]" by simp
  have c0: "clean_string [] ?p = []" by (simp add: clean_string_def strip_def)
  consider (b) "position t = ''user_message_before''" | (a) "position t = ''user_message_after''"
    | (s) "position t = ''system_prompt''"
    using pos by (auto simp: recognized_positions_def)
  then have "clean_string (or_empty (prompt (inject_phase [t] ?r1))) ?p = []"
  proof cases
    case b
    then have "prompt (inject_phase [t] ?r1) = Some (format_tag t @ [NL, NL])"
      using comp p1 by (simp add: rendered_blocks_def format_tag_def)
    then have "or_empty (prompt (inject_phase [t] ?r1)) = format_tag t @ [NL, NL]"
      by (simp add: or_empty_def)
    moreover have "re_sub_empty ?p (format_tag t @ [NL, NL]) = [NL, NL, NL]"
      using re_sub_rendered [OF wf nf, of "[NL, NL]"] n3 by simp
    ultimately show ?thesis by (simp add: clean_string_def c3 strip_newlines2)
  next
    case a
    then have "prompt (inject_phase [t] ?r1) = Some ([NL, NL] @ format_tag t)"
      using comp p1 by (simp add: rendered_blocks_def format_tag_def)
    then have "or_empty (prompt (inject_phase [t] ?r1)) = NL # NL # (format_tag t @ [])"
      by (simp add: or_empty_def)
    moreover have "re_sub_empty ?p (NL # NL # (format_tag t @ [])) = [NL, NL, NL]"
      using re_sub_rendered [OF wf nf, of "[]"]
      by (simp only: re_sub_newlines [OF wf] re_sub_empty.simps(1))
    ultimately show ?thesis by (simp add: clean_string_def c3 strip_newlines2)
  next
    case s
    then have "prompt (inject_phase [t] ?r1) = prompt ?r1"
      using comp by (simp add: rendered_blocks_def)
    with p1 c0 show ?thesis by simp
  qed
  with h e show ?thesis by simp
qed

theorem inject_then_clean_round_trip_witness:
  "clean_string (or_empty (prompt (handle_inject_tags
        [make_tag ''tag_1'' ''Foo'' (''Hello'' @ [NL] @ ''World'') ''user_message_after'']
        \<lparr>system_prompt = None, prompt = None, contexts = []\<rparr>)))
     (build_cleanup_pattern
        (make_tag ''tag_1'' ''Foo'' (''Hello'' @ [NL] @ ''World'') ''user_message_after''))
   = []"
proof -
  let ?t = "make_tag ''tag_1'' ''Foo'' (''Hello'' @ [NL] @ ''World'') ''user_message_after''"
  let ?r = "\<lparr>system_prompt = None, prompt = None, contexts = []\<rparr>"
  have wf: "tag_wf ?t" by code_simp
  have pos: "position ?t \<in> set recognized_positions" by code_simp
  have nf: "\<not> sublist (footer ?t) (content ?t)" by code_simp
  have e: "or_empty (prompt ?r) = []" by (simp add: or_empty_def)
  from inject_then_clean_round_trip [OF wf pos nf e] e show ?thesis by simp
qed

text \<open>
  C6 as stated fails for a tag whose content contains its own footer: the lazy pattern
  stops at the footer inside the content, and the rest of the block stays.
\<close>

theorem round_trip_fails_on_footer_in_content:
  "clean_string (or_empty (prompt (handle_inject_tags
        [make_tag ''tag_1'' ''Foo'' ''a</Foo>b'' ''user_message_after'']
        \<lparr>system_prompt = None, prompt = None, contexts = []\<rparr>)))
     (build_cleanup_pattern (make_tag ''tag_1'' ''Foo'' ''a</Foo>b'' ''user_message_after''))
   = ''b'' @ [NL] @ ''</Foo>''"
  by code_simp

section \<open>Injection followed by cleanup of another tag\<close>

lemma prefix_terminated:
  "c \<notin> set a \<Longrightarrow> c \<notin> set b \<Longrightarrow> prefix (a @ [c]) (b @ [c]) \<Longrightarrow> a = b"
proof (induction a arbitrary: b)
  case Nil
  show ?case
  proof (cases b)
    case Nil
    then show ?thesis by simp
  next
    case (Cons y ys)
    with Nil.prems(3) have "c = y" by (simp del: prefix_snoc)
    with Cons Nil.prems(2) show ?thesis by simp
  qed
next
  case (Cons x a)
  show ?case
  proof (cases b)
    case Nil
    with Cons.prems(3) have "x = c" by (simp del: prefix_snoc)
    with Cons.prems(1) show ?thesis by simp
  next
    case (Cons y ys)
    with Cons.prems(3) have xy: "x = y" and p: "prefix (a @ [c]) (ys @ [c])"
      by (simp_all del: prefix_snoc)
    from Cons.prems(1) have "c \<notin> set a" by simp
    moreover from Cons.prems(2) Cons have "c \<notin> set ys" by simp
    ultimately have "a = ys" using p by (rule Cons.IH)
    with xy Cons show ?thesis by simp
  qed
qed

lemma sublist_LT_word:
  assumes "LT \<notin> set v"
  shows "sublist (LT # u) (LT # v) \<longleftrightarrow> prefix u v"
proof -
  have "\<not> sublist (LT # u) v"
  proof
    assume "sublist (LT # u) v"
    then have "set (LT # u) \<subseteq> set v" by (rule set_mono_sublist)
    with assms show False by simp
  qed
  then show ?thesis using sublist_Cons_right [of "LT # u" LT v] by simp
qed

lemma delimiters_disjoint:
  assumes wf1: "tag_wf t1" and wf2: "tag_wf t2" and ne: "tag_name t1 \<noteq> tag_name t2"
  shows "\<not> sublist (header t2) (header t1)" "\<not> sublist (header t2) (footer t1)"
    "\<not> sublist (footer t2) (header t1)" "\<not> sublist (footer t2) (footer t1)"
proof -
  let ?n1 = "tag_name t1" and ?n2 = "tag_name t2"
  note s1 = tag_wf_shape [OF wf1] and s2 = tag_wf_shape [OF wf2]
  from wf1 have l1: "list_all name_char ?n1" and e1: "?n1 \<noteq> []" by (simp_all add: tag_wf_def)
  from wf2 have l2: "list_all name_char ?n2" and e2: "?n2 \<noteq> []" by (simp_all add: tag_wf_def)
  note c1 = name_no_special [OF l1] and c2 = name_no_special [OF l2]
  have pe: "\<not> prefix (?n2 @ [GT]) (?n1 @ [GT])"
  proof
    assume "prefix (?n2 @ [GT]) (?n1 @ [GT])"
    with c2(3) c1(3) have "?n2 = ?n1" by (rule prefix_terminated)
    with ne show False by simp
  qed
  have ps2: "\<not> prefix (?n2 @ [GT]) (SLASH # ?n1 @ [GT])"
  proof
    assume p: "prefix (?n2 @ [GT]) (SLASH # ?n1 @ [GT])"
    from e2 obtain y ys where "?n2 = y # ys" by (cases ?n2) auto
    with p have "y = SLASH" by (simp del: prefix_snoc)
    with \<open>?n2 = y # ys\<close> c2(4) show False by simp
  qed
  have ps1: "\<not> prefix (SLASH # ?n2 @ [GT]) (?n1 @ [GT])"
  proof
    assume p: "prefix (SLASH # ?n2 @ [GT]) (?n1 @ [GT])"
    from e1 obtain y ys where "?n1 = y # ys" by (cases ?n1) auto
    with p have "y = SLASH" by (simp del: prefix_snoc)
    with \<open>?n1 = y # ys\<close> c1(4) show False by simp
  qed
  have pe': "\<not> prefix (SLASH # ?n2 @ [GT]) (SLASH # ?n1 @ [GT])"
    using pe by (simp only: Cons_prefix_Cons simp_thms)
  show "\<not> sublist (header t2) (header t1)"
    unfolding s1(1) s2(1) sublist_LT_word [OF s1(3)] by (rule pe)
  show "\<not> sublist (header t2) (footer t1)"
    unfolding s1(2) s2(1) sublist_LT_word [OF s1(4)] by (rule ps2)
  show "\<not> sublist (footer t2) (header t1)"
    unfolding s1(1) s2(2) sublist_LT_word [OF s1(3)] by (rule ps1)
  show "\<not> sublist (footer t2) (footer t1)"
    unfolding s1(2) s2(2) sublist_LT_word [OF s1(4)] by (rule pe')
qed


lemma sublist_line_Cons:
  assumes "c \<notin> set w" and "w \<noteq> []"
  shows "sublist w (c # b) \<longleftrightarrow> sublist w b"
proof -
  have "sublist w ([] @ c # b) \<longleftrightarrow> sublist w [] \<or> sublist w b"
    using assms(1) by (rule sublist_line_split)
  with assms(2) show ?thesis by simp
qed

lemma anchored_text:
  assumes pos: "position t \<in> set recognized_positions"
  shows "anchor_field t (inject_phase [t] r) =
           Some (if position t = ''user_message_before''
                 then format_tag t @ [NL, NL] @ or_empty (anchor_field t r)
                 else or_empty (anchor_field t r) @ [NL, NL] @ format_tag t)"
proof -
  have rec: "\<forall>u \<in> set [t]. position u \<in> set recognized_positions" using pos by simp
  note p = inject_phase_prompt [OF rec, of r]
  note s = inject_phase_system_prompt [OF rec, of r]
  consider (b) "position t = ''user_message_before''" | (a) "position t = ''user_message_after''"
    | (s) "position t = ''system_prompt''"
    using pos by (auto simp: recognized_positions_def)
  then show ?thesis
  proof cases
    case b
    with p show ?thesis by (simp add: anchor_field_def rendered_blocks_def format_tag_def)
  next
    case a
    with p show ?thesis by (simp add: anchor_field_def rendered_blocks_def format_tag_def)
  next
    case s
    with \<open>system_prompt (inject_phase [t] r) = _\<close> show ?thesis
      by (simp add: anchor_field_def rendered_blocks_def format_tag_def)
  qed
qed

lemma prefix_line_iff:
  assumes "c \<notin> set w"
  shows "prefix w (a @ c # b) \<longleftrightarrow> prefix w a"
proof
  assume "prefix w (a @ c # b)"
  with assms show "prefix w a" by (rule prefix_cut)
next
  assume "prefix w a"
  then show "prefix w (a @ c # b)" by (rule prefix_prefix)
qed

text \<open>Scanning over a text without header, up to a line feed.\<close>

lemma re_sub_over_headerless:
  assumes nl: "NL \<notin> set h" and ne: "h \<noteq> []"
  shows "\<not> sublist h a \<Longrightarrow>
           re_sub_empty (LazySpan h f) (a @ NL # s) = a @ NL # re_sub_empty (LazySpan h f) s"
proof (induction a)
  case Nil
  from nl ne have "\<not> prefix h (NL # s)" by (cases h) auto
  then show ?case by simp
next
  case (Cons c a)
  have np: "\<not> prefix h ((c # a) @ NL # s)"
  proof
    assume "prefix h ((c # a) @ NL # s)"
    with nl have "prefix h (c # a)" by (rule prefix_cut)
    then have "sublist h (c # a)" by (rule prefix_imp_sublist)
    with Cons.prems show False by contradiction
  qed
  then have m: "match_at (LazySpan h f) (c # (a @ NL # s)) = None" by simp
  from Cons.prems have "\<not> sublist h a"
    using sublist_Cons_right [of h c a] by blast
  then have IH: "re_sub_empty (LazySpan h f) (a @ NL # s) = a @ NL # re_sub_empty (LazySpan h f) s"
    by (rule Cons.IH)
  have "re_sub_empty (LazySpan h f) (c # (a @ NL # s)) = c # re_sub_empty (LazySpan h f) (a @ NL # s)"
    by (simp only: re_sub_empty.simps m option.case)
  with IH show ?case by simp
qed

lemma find_after_before_line:
  assumes nl: "NL \<notin> set f" and ne: "f \<noteq> []" and ns: "\<not> sublist f s"
  shows "find_after f (q @ NL # s) = map_option (\<lambda>r. r @ NL # s) (find_after f q)"
proof (induction q)
  case Nil
  from nl ne have "\<not> prefix f (NL # s)" by (cases f) auto
  moreover from ns have "find_after f s = None" by (simp add: find_after_None)
  ultimately show ?case using ne by simp
next
  case (Cons c q)
  have pi: "prefix f ((c # q) @ NL # s) \<longleftrightarrow> prefix f (c # q)"
    using nl by (rule prefix_line_iff)
  show ?case
  proof (cases "prefix f (c # q)")
    case True
    then have le: "length f \<le> length (c # q)" by (rule prefix_length_le)
    from True pi have p: "prefix f (c # (q @ NL # s))" by simp
    have "find_after f (c # (q @ NL # s)) = Some (drop (length f) (c # (q @ NL # s)))"
      using p by (simp only: find_after.simps if_True)
    also have "drop (length f) (c # (q @ NL # s)) = drop (length f) ((c # q) @ NL # s)" by simp
    also have "\<dots> = drop (length f) (c # q) @ NL # s" using le by (simp only: drop_append) simp
    finally have 1: "find_after f (c # (q @ NL # s)) = Some (drop (length f) (c # q) @ NL # s)" .
    have 2: "find_after f (c # q) = Some (drop (length f) (c # q))"
      using True by (simp only: find_after.simps if_True)
    show ?thesis unfolding 2 using 1 by simp
  next
    case False
    with pi have np: "\<not> prefix f (c # (q @ NL # s))" by simp
    have 1: "find_after f (c # (q @ NL # s)) = find_after f (q @ NL # s)"
      using np by (simp only: find_after.simps if_False)
    have 2: "find_after f (c # q) = find_after f q"
      using False by (simp only: find_after.simps if_False)
    show ?thesis using 1 2 Cons.IH by simp
  qed
qed

text \<open>Scanning a text followed by a line feed and a rest without footer.\<close>

lemma re_sub_before_footerless:
  assumes nh: "NL \<notin> set h" and hne: "h \<noteq> []" and nf: "NL \<notin> set f" and fne: "f \<noteq> []"
    and sf: "\<not> sublist f s"
  shows "re_sub_empty (LazySpan h f) (p @ NL # s) = re_sub_empty (LazySpan h f) p @ NL # s"
proof (induction "length p" arbitrary: p rule: less_induct)
  case less
  let ?P = "LazySpan h f"
  show ?case
  proof (cases p)
    case Nil
    have "\<not> has_match h f (NL # s)"
    proof
      assume "has_match h f (NL # s)"
      then have "sublist f (NL # s)" using has_match_sublists by blast
      with sublist_line_Cons [OF nf fne, of s] sf show False by simp
    qed
    then have "re_sub_empty ?P (NL # s) = NL # s" by (rule re_sub_no_match)
    with Nil show ?thesis by simp
  next
    case (Cons c cs)
    have pi: "prefix h ((c # cs) @ NL # s) \<longleftrightarrow> prefix h (c # cs)"
      using nh by (rule prefix_line_iff)
    have IHcs: "re_sub_empty ?P (cs @ NL # s) = re_sub_empty ?P cs @ NL # s"
      using less.hyps [of cs] Cons by simp
    show ?thesis
    proof (cases "match_at ?P (c # cs)")
      case None
      have "match_at ?P (c # (cs @ NL # s)) = None"
      proof (cases "prefix h (c # cs)")
        case False
        with pi show ?thesis by simp
      next
        case True
        with None have fa: "find_after f (drop (length h) (c # cs)) = None" by simp
        from True have le: "length h \<le> length (c # cs)" by (rule prefix_length_le)
        have "drop (length h) ((c # cs) @ NL # s) = drop (length h) (c # cs) @ NL # s"
          using le by (simp only: drop_append) simp
        then have "find_after f (drop (length h) (c # (cs @ NL # s))) = None"
          using find_after_before_line [OF nf fne sf, of "drop (length h) (c # cs)"] fa by simp
        then show ?thesis by simp
      qed
      then have "re_sub_empty ?P (c # (cs @ NL # s)) = c # re_sub_empty ?P (cs @ NL # s)"
        by (simp only: re_sub_empty.simps option.case)
      moreover have "re_sub_empty ?P (c # cs) = c # re_sub_empty ?P cs"
        using None by (simp only: re_sub_empty.simps option.case)
      ultimately show ?thesis using IHcs Cons by simp
    next
      case (Some r)
      then have ph: "prefix h (c # cs)" and fa: "find_after f (drop (length h) (c # cs)) = Some r"
        by (auto split: if_splits)
      from ph have le: "length h \<le> length (c # cs)" by (rule prefix_length_le)
      have d: "drop (length h) ((c # cs) @ NL # s) = drop (length h) (c # cs) @ NL # s"
        using le by (simp only: drop_append) simp
      have fa': "find_after f (drop (length h) (c # (cs @ NL # s))) = Some (r @ NL # s)"
        using find_after_before_line [OF nf fne sf, of "drop (length h) (c # cs)"] fa d by simp
      from ph pi have ph': "prefix h (c # (cs @ NL # s))" by simp
      have m': "match_at ?P (c # (cs @ NL # s)) = Some (r @ NL # s)"
        using ph' fa' by simp
      from find_after_is_suffix [OF fa] have "length r \<le> length (drop (length h) (c # cs))"
        by (rule suffix_length_le)
      with hne have lr: "length r < length (c # cs)" by (cases h) auto
      then have lr': "length (r @ NL # s) < length (c # (cs @ NL # s))" by simp
      have 1: "re_sub_empty ?P (c # (cs @ NL # s)) = re_sub_empty ?P (r @ NL # s)"
        using m' lr' by (simp only: re_sub_empty.simps option.case if_True)
      have 2: "re_sub_empty ?P (c # cs) = re_sub_empty ?P r"
        using Some lr by (simp only: re_sub_empty.simps option.case if_True)
      have "re_sub_empty ?P (r @ NL # s) = re_sub_empty ?P r @ NL # s"
        using less.hyps [of r] lr Cons by simp
      with 1 2 Cons show ?thesis by simp
    qed
  qed
qed


text \<open>Collapsing around a character that is no line feed.\<close>

lemma collapse_at_char:
  assumes "c \<noteq> NL"
  shows "collapse_newlines (a @ c # s) = collapse_newlines a @ c # collapse_newlines s"
proof (induction a rule: collapse_newlines.induct)
  case 1
  from assms show ?case by simp
next
  case (2 x xs)
  have tw: "takeWhile isNL (xs @ c # s) = takeWhile isNL xs"
    using assms by (induction xs) simp_all
  have dw: "dropWhile isNL (xs @ c # s) = dropWhile isNL xs @ c # s"
    using assms by (induction xs) simp_all
  show ?case
  proof (cases "x = NL \<and> 2 \<le> length (takeWhile isNL xs)")
    case True
    then have "collapse_newlines ((x # xs) @ c # s)
                 = NL # NL # collapse_newlines (dropWhile isNL xs @ c # s)"
      using tw dw by simp
    also have "\<dots> = NL # NL # (collapse_newlines (dropWhile isNL xs) @ c # collapse_newlines s)"
      using "2.IH"(1) [OF True] by simp
    also have "\<dots> = collapse_newlines (x # xs) @ c # collapse_newlines s"
      using True by simp
    finally show ?thesis .
  next
    case False
    then have "collapse_newlines ((x # xs) @ c # s) = x # collapse_newlines (xs @ c # s)"
      using tw by auto
    also have "\<dots> = x # (collapse_newlines xs @ c # collapse_newlines s)"
      using "2.IH"(2) [OF False] by simp
    also have "\<dots> = collapse_newlines (x # xs) @ c # collapse_newlines s"
      using False by auto
    finally show ?thesis .
  qed
qed

lemma collapse_keeps_word:
  assumes w: "w = x # m @ [y]" and x: "x \<noteq> NL" and y: "y \<noteq> NL"
    and nt: "\<not> sublist [NL, NL, NL] w"
  shows "collapse_newlines (a @ w @ b) = collapse_newlines a @ w @ collapse_newlines b"
proof -
  have "collapse_newlines (a @ w @ b) = collapse_newlines (a @ x # ((m @ y # b)))"
    unfolding w by simp
  also have "\<dots> = collapse_newlines a @ x # collapse_newlines (m @ y # b)"
    using x by (rule collapse_at_char)
  also have "\<dots> = collapse_newlines a @ x # (collapse_newlines m @ y # collapse_newlines b)"
    using collapse_at_char [OF y, of m b] by simp
  finally have 1: "collapse_newlines (a @ w @ b)
      = collapse_newlines a @ (x # collapse_newlines m @ [y]) @ collapse_newlines b" by simp
  have "collapse_newlines w = collapse_newlines ([] @ x # (m @ y # []))" unfolding w by simp
  also have "\<dots> = collapse_newlines [] @ x # collapse_newlines (m @ y # [])"
    using x by (rule collapse_at_char)
  also have "\<dots> = x # (collapse_newlines m @ y # collapse_newlines [])"
    using collapse_at_char [OF y, of m "[]"] by simp
  finally have "collapse_newlines w = x # collapse_newlines m @ [y]" by simp
  moreover from nt have "collapse_newlines w = w" by (rule collapse_id)
  ultimately have "x # collapse_newlines m @ [y] = w" by simp
  with 1 show ?thesis by simp
qed

text \<open>Stripping keeps a word that begins and ends with a character that is no space.\<close>

lemma dropWhile_keeps_word:
  assumes "\<not> P x"
  shows "\<exists>a'. dropWhile P (a @ x # s) = a' @ x # s \<and> suffix a' a"
proof (induction a)
  case Nil
  from assms have "dropWhile P ([] @ x # s) = [] @ x # s \<and> suffix [] []" by simp
  then show ?case by blast
next
  case (Cons c a)
  show ?case
  proof (cases "P c")
    case True
    from Cons.IH obtain a' where a': "dropWhile P (a @ x # s) = a' @ x # s" "suffix a' a"
      by blast
    from a'(2) have "suffix a' (c # a)" by (rule suffix_ConsI)
    moreover from True a'(1) have "dropWhile P ((c # a) @ x # s) = a' @ x # s" by simp
    ultimately show ?thesis by blast
  next
    case False
    then have "dropWhile P ((c # a) @ x # s) = (c # a) @ x # s" by simp
    moreover have "suffix (c # a) (c # a)" by simp
    ultimately show ?thesis by blast
  qed
qed

lemma strip_keeps_word:
  assumes w: "w = x # m @ [y]" and x: "\<not> is_space x" and y: "\<not> is_space y"
  shows "\<exists>a' b'. strip (a @ w @ b) = a' @ w @ b' \<and> prefix b' b"
proof -
  have "a @ w @ b = a @ x # (m @ y # b)" unfolding w by simp
  with dropWhile_keeps_word [where P = is_space and x = x and a = a and s = "m @ y # b", OF x]
  obtain a' where 1: "dropWhile is_space (a @ w @ b) = a' @ x # (m @ y # b)" by auto
  have "rev (a' @ x # (m @ y # b)) = rev b @ y # (rev m @ x # rev a')" by simp
  with dropWhile_keeps_word [where P = is_space and x = y and a = "rev b"
         and s = "rev m @ x # rev a'", OF y]
  obtain b'' where
    2: "dropWhile is_space (rev (a' @ x # (m @ y # b))) = b'' @ y # (rev m @ x # rev a')"
    and 3: "suffix b'' (rev b)"
    by auto
  have "strip (a @ w @ b) = rev (b'' @ y # (rev m @ x # rev a'))"
    unfolding strip_def 1 2 ..
  also have "\<dots> = a' @ w @ rev b''" unfolding w by simp
  finally have 4: "strip (a @ w @ b) = a' @ w @ rev b''" .
  from 3 have "prefix (rev b'') b" by (simp add: suffix_to_prefix)
  with 4 show ?thesis by blast
qed

text \<open>
  The block of a well-formed tag without its final line feed: it begins with \<open><\<close>, ends
  with \<open>>\<close>, and contains a word without line feed only inside one of its three lines.
\<close>

lemma block_core_shape:
  assumes "tag_wf t"
  shows "\<exists>m. block_core t = LT # m @ [GT]"
proof -
  note s = tag_wf_shape [OF assms]
  have "block_core t
          = LT # ((tag_name t @ [GT]) @ [NL] @ content t @ [NL] @ LT # SLASH # tag_name t) @ [GT]"
    unfolding block_core_def s(1) s(2) by simp
  then show ?thesis by blast
qed

lemma format_tag_core: "format_tag t = block_core t @ [NL]"
  by (simp add: format_tag_def block_core_def)

lemma sublist_block_core:
  assumes "NL \<notin> set w"
  shows "sublist w (block_core t)
           \<longleftrightarrow> sublist w (header t) \<or> sublist w (content t) \<or> sublist w (footer t)"
proof -
  have a: "block_core t = header t @ NL # (content t @ NL # footer t)"
    by (simp add: block_core_def)
  have e1: "sublist w (header t @ NL # (content t @ NL # footer t))
              \<longleftrightarrow> sublist w (header t) \<or> sublist w (content t @ NL # footer t)"
    using assms by (rule sublist_line_split)
  have e2: "sublist w (content t @ NL # footer t) \<longleftrightarrow> sublist w (content t) \<or> sublist w (footer t)"
    using assms by (rule sublist_line_split)
  show ?thesis unfolding a e1 e2 ..
qed

lemma collapse_line_feed_first: "\<exists>z. collapse_newlines (NL # s) = NL # z"
  by (cases "2 \<le> length (takeWhile isNL s)") simp_all

text \<open>A block followed by nothing or by a line feed is held.\<close>

lemma holds_blockI:
  assumes s: "s = a @ block_core t @ b" and p: "prefix b (NL # z)"
  shows "holds_block t s"
proof (cases b)
  case Nil
  with s have "s = a @ block_core t" by simp
  then have "suffix (block_core t) s" unfolding suffix_def by blast
  then show ?thesis unfolding holds_block_def ..
next
  case (Cons c cs)
  with p have "c = NL" by simp
  with s Cons have "s = a @ format_tag t @ cs" by (simp add: format_tag_core)
  then have "sublist (format_tag t) s" unfolding sublist_def by blast
  then show ?thesis unfolding holds_block_def ..
qed

lemma kept_text_holds_block:
  assumes wf1: "tag_wf t1" and wf2: "tag_wf t2"
    and nt: "\<not> sublist [NL, NL, NL] (block_core t1)"
    and X: "X = a @ block_core t1 @ NL # b"
    and R: "re_sub_empty (build_cleanup_pattern t2) X = a' @ block_core t1 @ NL # b'"
  shows "holds_block t1 (kept_text t2 X)"
proof (cases "sublist (header t2) X \<and> sublist (footer t2) X")
  case False
  then have "kept_text t2 X = X" unfolding kept_text_def by (rule if_not_P)
  with X have "kept_text t2 X = a @ block_core t1 @ NL # b" by simp
  moreover have "prefix (NL # b) (NL # b)" by simp
  ultimately show ?thesis by (rule holds_blockI)
next
  case True
  then have k: "kept_text t2 X = strip (collapse_newlines (re_sub_empty (build_cleanup_pattern t2) X))"
    unfolding kept_text_def clean_string_def by (rule if_P)
  from block_core_shape [OF wf1] obtain m where m: "block_core t1 = LT # m @ [GT]" by blast
  have c: "collapse_newlines (a' @ block_core t1 @ NL # b')
             = collapse_newlines a' @ block_core t1 @ collapse_newlines (NL # b')"
    using m _ _ nt by (rule collapse_keeps_word) simp_all
  from collapse_line_feed_first [of b'] obtain z where z: "collapse_newlines (NL # b') = NL # z"
    by blast
  have sp: "\<not> is_space LT" "\<not> is_space GT" by (simp_all add: is_space_def)
  from strip_keeps_word [OF m sp, of "collapse_newlines a'" "NL # z"]
  obtain u v where u: "strip (collapse_newlines a' @ block_core t1 @ NL # z) = u @ block_core t1 @ v"
    and v: "prefix v (NL # z)" by blast
  have "kept_text t2 X = u @ block_core t1 @ v" unfolding k R c z u ..
  then show ?thesis using v by (rule holds_blockI)
qed

lemma kept_text_block_before:
  assumes wf1: "tag_wf t1" and wf2: "tag_wf t2" and ne: "tag_name t1 \<noteq> tag_name t2"
    and nh: "\<not> sublist (header t2) (content t1)"
    and nt: "\<not> sublist [NL, NL, NL] (block_core t1)"
  shows "holds_block t1 (kept_text t2 (format_tag t1 @ [NL, NL] @ p))"
proof -
  note d2 = tag_wf_delims [OF wf2]
  note dj = delimiters_disjoint [OF wf1 wf2 ne]
  let ?pat = "LazySpan (header t2) (footer t2)"
  have X: "format_tag t1 @ [NL, NL] @ p = [] @ block_core t1 @ NL # (NL # NL # p)"
    by (simp add: format_tag_core)
  have "\<not> sublist (header t2) (block_core t1)"
    unfolding sublist_block_core [OF d2(3)] using dj(1) dj(2) nh by blast
  with d2(3) d2(1) have "re_sub_empty ?pat (block_core t1 @ NL # (NL # NL # p))
          = block_core t1 @ NL # re_sub_empty ?pat (NL # NL # p)"
    by (rule re_sub_over_headerless)
  then have R: "re_sub_empty (build_cleanup_pattern t2) (format_tag t1 @ [NL, NL] @ p)
          = [] @ block_core t1 @ NL # re_sub_empty ?pat (NL # NL # p)"
    by (simp add: build_cleanup_pattern_def format_tag_core)
  from wf1 wf2 nt X R show ?thesis by (rule kept_text_holds_block)
qed

lemma kept_text_block_after:
  assumes wf1: "tag_wf t1" and wf2: "tag_wf t2" and ne: "tag_name t1 \<noteq> tag_name t2"
    and nf: "\<not> sublist (footer t2) (content t1)"
    and nt: "\<not> sublist [NL, NL, NL] (block_core t1)"
  shows "holds_block t1 (kept_text t2 (p @ [NL, NL] @ format_tag t1))"
proof -
  note d2 = tag_wf_delims [OF wf2]
  note dj = delimiters_disjoint [OF wf1 wf2 ne]
  let ?pat = "LazySpan (header t2) (footer t2)"
  let ?s = "NL # block_core t1 @ [NL]"
  have X: "p @ [NL, NL] @ format_tag t1 = (p @ [NL, NL]) @ block_core t1 @ NL # []"
    by (simp add: format_tag_core)
  have nc: "\<not> sublist (footer t2) (block_core t1)"
    unfolding sublist_block_core [OF d2(4)] using dj(3) dj(4) nf by blast
  have "sublist (footer t2) (block_core t1 @ NL # []) \<longleftrightarrow>
          sublist (footer t2) (block_core t1) \<or> sublist (footer t2) []"
    using d2(4) by (rule sublist_line_split)
  with nc d2(2) have "\<not> sublist (footer t2) (block_core t1 @ [NL])" by simp
  then have "\<not> sublist (footer t2) ?s"
    unfolding sublist_line_Cons [OF d2(4) d2(2)] .
  with d2(3) d2(1) d2(4) d2(2) have "re_sub_empty ?pat (p @ NL # ?s) = re_sub_empty ?pat p @ NL # ?s"
    by (rule re_sub_before_footerless)
  then have R: "re_sub_empty (build_cleanup_pattern t2) (p @ [NL, NL] @ format_tag t1)
          = (re_sub_empty ?pat p @ [NL, NL]) @ block_core t1 @ NL # []"
    by (simp add: build_cleanup_pattern_def format_tag_core)
  from wf1 wf2 nt X R show ?thesis by (rule kept_text_holds_block)
qed


text \<open>
  C5 (amended). Let \<open>t1\<close> and \<open>t2\<close> be tags with distinct names, \<open>t1\<close> with a block
  without a run of three line feeds and with a content that does not contain the header
  of \<open>t2\<close> (when \<open>t1\<close> goes before the user message) or the footer of \<open>t2\<close> (when \<open>t1\<close>
  goes after the user message or to the system prompt). After the injection of \<open>t1\<close>
  and the cleanup for \<open>t2\<close>, whatever the prior text of the field holds and whether or not
  the cleanup deletes something from it, the field that \<open>t1\<close> was injected into still
  holds the rendered block of \<open>t1\<close>: either the whole block, or, when the block ends the
  field, the block without its final line feed.
\<close>

theorem other_tag_cleanup_keeps_block:
  assumes wf1: "tag_wf t1" and wf2: "tag_wf t2" and ne: "tag_name t1 \<noteq> tag_name t2"
    and pos: "position t1 \<in> set recognized_positions"
    and nh: "position t1 = ''user_message_before'' \<longrightarrow> \<not> sublist (header t2) (content t1)"
    and nf: "position t1 \<noteq> ''user_message_before'' \<longrightarrow> \<not> sublist (footer t2) (content t1)"
    and nt: "\<not> sublist [NL, NL, NL] (block_core t1)"
  shows "sublist (format_tag t1)
           (or_empty (anchor_field t1 (fst (remove_tags_from_context (inject_phase [t1] r) t2))))
         \<or> suffix (block_core t1)
           (or_empty (anchor_field t1 (fst (remove_tags_from_context (inject_phase [t1] r) t2))))"
proof -
  let ?P = "or_empty (anchor_field t1 r)"
  let ?r1 = "inject_phase [t1] r"
  let ?X = "if position t1 = ''user_message_before''
            then format_tag t1 @ [NL, NL] @ ?P else ?P @ [NL, NL] @ format_tag t1"
  note d2 = tag_wf_delims [OF wf2]
  have X: "anchor_field t1 ?r1 = Some ?X" using pos by (rule anchored_text)
  have "anchor_field t1 (fst (remove_tags_from_context ?r1 t2))
          = fst (clean_prompt_field t2 (anchor_field t1 ?r1))"
    by (simp add: anchor_field_def remove_tags_fields)
  also have "\<dots> = Some (kept_text t2 ?X)"
    unfolding X clean_prompt_field_texts [OF d2(1)] by simp
  finally have F: "or_empty (anchor_field t1 (fst (remove_tags_from_context ?r1 t2)))
                     = kept_text t2 ?X"
    by (simp add: or_empty_def)
  have "holds_block t1 (kept_text t2 ?X)"
  proof (cases "position t1 = ''user_message_before''")
    case True
    with nh have "\<not> sublist (header t2) (content t1)" by simp
    with wf1 wf2 ne have "holds_block t1 (kept_text t2 (format_tag t1 @ [NL, NL] @ ?P))"
      using nt by (rule kept_text_block_before)
    with True show ?thesis by simp
  next
    case False
    with nf have "\<not> sublist (footer t2) (content t1)" by simp
    with wf1 wf2 ne have "holds_block t1 (kept_text t2 (?P @ [NL, NL] @ format_tag t1))"
      using nt by (rule kept_text_block_after)
    with False show ?thesis by simp
  qed
  then show ?thesis unfolding F holds_block_def .
qed

text \<open>
  The prompt holds a stale block of \<open>Bar\<close>, which the cleanup for \<open>Bar\<close> deletes. \<open>Foo\<close>
  injected before the user message, with the footer of \<open>Bar\<close> in its content, keeps its
  whole block; \<open>Foo\<close> injected after the user message, with the header of \<open>Bar\<close> in its
  content, ends the prompt and keeps its block without the final line feed.
\<close>

theorem other_tag_cleanup_keeps_block_witness:
  "(prompt (fst (remove_tags_from_context
       (inject_phase [make_tag ''tag_1'' ''Foo'' ''a</Bar>'' ''user_message_before'']
          \<lparr>system_prompt = None, prompt = Some ''<Bar>old</Bar> Hi'', contexts = []\<rparr>)
       (make_tag ''tag_2'' ''Bar'' ''b'' ''user_message_after'')))
     = Some (''<Foo>'' @ [NL] @ ''a</Bar>'' @ [NL] @ ''</Foo>'' @ [NL, NL] @ '' Hi'')
    \<and> (sublist (format_tag (make_tag ''tag_1'' ''Foo'' ''a</Bar>'' ''user_message_before''))
          (''<Foo>'' @ [NL] @ ''a</Bar>'' @ [NL] @ ''</Foo>'' @ [NL, NL] @ '' Hi'')
        \<or> suffix (block_core (make_tag ''tag_1'' ''Foo'' ''a</Bar>'' ''user_message_before''))
          (''<Foo>'' @ [NL] @ ''a</Bar>'' @ [NL] @ ''</Foo>'' @ [NL, NL] @ '' Hi'')))
   \<and>
   (prompt (fst (remove_tags_from_context
       (inject_phase [make_tag ''tag_1'' ''Foo'' ''<Bar>f'' ''user_message_after'']
          \<lparr>system_prompt = None, prompt = Some ''<Bar>old</Bar> Hi'', contexts = []\<rparr>)
       (make_tag ''tag_2'' ''Bar'' ''b'' ''user_message_after'')))
     = Some (''Hi'' @ [NL, NL] @ ''<Foo>'' @ [NL] @ ''<Bar>f'' @ [NL] @ ''</Foo>'')
    \<and> (sublist (format_tag (make_tag ''tag_1'' ''Foo'' ''<Bar>f'' ''user_message_after''))
          (''Hi'' @ [NL, NL] @ ''<Foo>'' @ [NL] @ ''<Bar>f'' @ [NL] @ ''</Foo>'')
        \<or> suffix (block_core (make_tag ''tag_1'' ''Foo'' ''<Bar>f'' ''user_message_after''))
          (''Hi'' @ [NL, NL] @ ''<Foo>'' @ [NL] @ ''<Bar>f'' @ [NL] @ ''</Foo>'')))"
proof -
  let ?t1 = "make_tag ''tag_1'' ''Foo'' ''a</Bar>'' ''user_message_before''"
  let ?u1 = "make_tag ''tag_1'' ''Foo'' ''<Bar>f'' ''user_message_after''"
  let ?t2 = "make_tag ''tag_2'' ''Bar'' ''b'' ''user_message_after''"
  let ?r = "\<lparr>system_prompt = None, prompt = Some ''<Bar>old</Bar> Hi'', contexts = []\<rparr>"
  have wf2: "tag_wf ?t2" by code_simp
  have wf1: "tag_wf ?t1" by code_simp
  have ne1: "tag_name ?t1 \<noteq> tag_name ?t2" by code_simp
  have pos1: "position ?t1 \<in> set recognized_positions" by code_simp
  have nh1: "position ?t1 = ''user_message_before'' \<longrightarrow> \<not> sublist (header ?t2) (content ?t1)"
    by code_simp
  have nf1: "position ?t1 \<noteq> ''user_message_before'' \<longrightarrow> \<not> sublist (footer ?t2) (content ?t1)"
    by code_simp
  have nt1: "\<not> sublist [NL, NL, NL] (block_core ?t1)" by code_simp
  have wfu: "tag_wf ?u1" by code_simp
  have neu: "tag_name ?u1 \<noteq> tag_name ?t2" by code_simp
  have posu: "position ?u1 \<in> set recognized_positions" by code_simp
  have nhu: "position ?u1 = ''user_message_before'' \<longrightarrow> \<not> sublist (header ?t2) (content ?u1)"
    by code_simp
  have nfu: "position ?u1 \<noteq> ''user_message_before'' \<longrightarrow> \<not> sublist (footer ?t2) (content ?u1)"
    by code_simp
  have ntu: "\<not> sublist [NL, NL, NL] (block_core ?u1)" by code_simp
  have p1: "prompt (fst (remove_tags_from_context (inject_phase [?t1] ?r) ?t2))
     = Some (''<Foo>'' @ [NL] @ ''a</Bar>'' @ [NL] @ ''</Foo>'' @ [NL, NL] @ '' Hi'')"
    by code_simp
  have a1: "or_empty (anchor_field ?t1 (fst (remove_tags_from_context (inject_phase [?t1] ?r) ?t2)))
     = ''<Foo>'' @ [NL] @ ''a</Bar>'' @ [NL] @ ''</Foo>'' @ [NL, NL] @ '' Hi''"
    by code_simp
  have pu: "prompt (fst (remove_tags_from_context (inject_phase [?u1] ?r) ?t2))
     = Some (''Hi'' @ [NL, NL] @ ''<Foo>'' @ [NL] @ ''<Bar>f'' @ [NL] @ ''</Foo>'')"
    by code_simp
  have au: "or_empty (anchor_field ?u1 (fst (remove_tags_from_context (inject_phase [?u1] ?r) ?t2)))
     = ''Hi'' @ [NL, NL] @ ''<Foo>'' @ [NL] @ ''<Bar>f'' @ [NL] @ ''</Foo>''"
    by code_simp
  note k1 = other_tag_cleanup_keeps_block [OF wf1 wf2 ne1 pos1 nh1 nf1 nt1, of ?r]
  note ku = other_tag_cleanup_keeps_block [OF wfu wf2 neu posu nhu nfu ntu, of ?r]
  from k1 have c1: "sublist (format_tag ?t1)
          (''<Foo>'' @ [NL] @ ''a</Bar>'' @ [NL] @ ''</Foo>'' @ [NL, NL] @ '' Hi'')
        \<or> suffix (block_core ?t1)
          (''<Foo>'' @ [NL] @ ''a</Bar>'' @ [NL] @ ''</Foo>'' @ [NL, NL] @ '' Hi'')"
    unfolding a1 .
  from ku have cu: "sublist (format_tag ?u1)
          (''Hi'' @ [NL, NL] @ ''<Foo>'' @ [NL] @ ''<Bar>f'' @ [NL] @ ''</Foo>'')
        \<or> suffix (block_core ?u1)
          (''Hi'' @ [NL, NL] @ ''<Foo>'' @ [NL] @ ''<Bar>f'' @ [NL] @ ''</Foo>'')"
    unfolding au .
  from p1 c1 pu cu show ?thesis by blast
qed

text \<open>
  C5 as stated fails in each of these runs (tag \<open>Foo\<close> injected, then the cleanup for
  \<open>Bar\<close>):
  the content of \<open>Foo\<close> holds a block of \<open>Bar\<close>, which is deleted from the block of
  \<open>Foo\<close>;
  the prompt holds a stale block of \<open>Bar\<close> and \<open>Foo\<close> goes after it: the final line feed
  of the block of \<open>Foo\<close> is stripped;
  the same with three line feeds in the content of \<open>Foo\<close>, which become two;
  \<open>Foo\<close> goes before a prompt with the footer of \<open>Bar\<close> and has the header of \<open>Bar\<close> in
  its content: the block of \<open>Foo\<close> is cut from that header on;
  \<open>Foo\<close> goes after a prompt with the header of \<open>Bar\<close> and has the footer of \<open>Bar\<close> in
  its content: the block of \<open>Foo\<close> is cut up to that footer.
\<close>

theorem other_tag_cleanup_damages_block:
  "(prompt (fst (remove_tags_from_context
      (inject_phase [make_tag ''tag_1'' ''Foo'' ''<Bar>secret</Bar>'' ''user_message_after'']
         \<lparr>system_prompt = None, prompt = None, contexts = []\<rparr>)
      (make_tag ''tag_2'' ''Bar'' ''b'' ''user_message_after'')))
     = Some (''<Foo>'' @ [NL, NL] @ ''</Foo>'')
    \<and> \<not> sublist (format_tag (make_tag ''tag_1'' ''Foo'' ''<Bar>secret</Bar>'' ''user_message_after''))
                 (''<Foo>'' @ [NL, NL] @ ''</Foo>''))
   \<and>
   (prompt (fst (remove_tags_from_context
      (inject_phase [make_tag ''tag_1'' ''Foo'' ''f'' ''user_message_after'']
         \<lparr>system_prompt = None, prompt = Some ''<Bar>old</Bar> Hi'', contexts = []\<rparr>)
      (make_tag ''tag_2'' ''Bar'' ''b'' ''user_message_after'')))
     = Some (''Hi'' @ [NL, NL] @ ''<Foo>'' @ [NL] @ ''f'' @ [NL] @ ''</Foo>'')
    \<and> \<not> sublist (format_tag (make_tag ''tag_1'' ''Foo'' ''f'' ''user_message_after''))
                 (''Hi'' @ [NL, NL] @ ''<Foo>'' @ [NL] @ ''f'' @ [NL] @ ''</Foo>''))
   \<and>
   (prompt (fst (remove_tags_from_context
      (inject_phase [make_tag ''tag_1'' ''Foo'' (''a'' @ [NL, NL, NL] @ ''b'') ''user_message_after'']
         \<lparr>system_prompt = None, prompt = Some ''<Bar>old</Bar> Hi'', contexts = []\<rparr>)
      (make_tag ''tag_2'' ''Bar'' ''b'' ''user_message_after'')))
     = Some (''Hi'' @ [NL, NL] @ ''<Foo>'' @ [NL] @ ''a'' @ [NL, NL] @ ''b'' @ [NL] @ ''</Foo>'')
    \<and> \<not> sublist (block_core (make_tag ''tag_1'' ''Foo'' (''a'' @ [NL, NL, NL] @ ''b'') ''user_message_after''))
                 (''Hi'' @ [NL, NL] @ ''<Foo>'' @ [NL] @ ''a'' @ [NL, NL] @ ''b'' @ [NL] @ ''</Foo>''))
   \<and>
   (prompt (fst (remove_tags_from_context
      (inject_phase [make_tag ''tag_1'' ''Foo'' ''x<Bar>y'' ''user_message_before'']
         \<lparr>system_prompt = None, prompt = Some ''z</Bar>'', contexts = []\<rparr>)
      (make_tag ''tag_2'' ''Bar'' ''b'' ''user_message_after'')))
     = Some (''<Foo>'' @ [NL] @ ''x'')
    \<and> \<not> sublist (block_core (make_tag ''tag_1'' ''Foo'' ''x<Bar>y'' ''user_message_before''))
                 (''<Foo>'' @ [NL] @ ''x''))
   \<and>
   (prompt (fst (remove_tags_from_context
      (inject_phase [make_tag ''tag_1'' ''Foo'' ''x</Bar>y'' ''user_message_after'']
         \<lparr>system_prompt = None, prompt = Some ''<Bar>'', contexts = []\<rparr>)
      (make_tag ''tag_2'' ''Bar'' ''b'' ''user_message_after'')))
     = Some (''y'' @ [NL] @ ''</Foo>'')
    \<and> \<not> sublist (block_core (make_tag ''tag_1'' ''Foo'' ''x</Bar>y'' ''user_message_after''))
                 (''y'' @ [NL] @ ''</Foo>''))"
  by code_simp

section \<open>Loaded tags are well formed\<close>

lemma name_match_stripped:
  assumes "TAG_NAME_PATTERN_match (strip x)"
  shows "list_all name_char (strip x)"
proof -
  let ?s = "strip x"
  from assms have tw: "takeWhile name_char ?s \<noteq> []"
    and dw: "dropWhile name_char ?s = [] \<or> dropWhile name_char ?s = [NL]"
    by (simp_all add: TAG_NAME_PATTERN_match_def)
  from tw have ne: "?s \<noteq> []" by auto
  from dw show ?thesis
  proof
    assume "dropWhile name_char ?s = []"
    then show ?thesis by (simp add: list_all_iff)
  next
    assume d: "dropWhile name_char ?s = [NL]"
    have "?s = takeWhile name_char ?s @ dropWhile name_char ?s" by simp
    then have "last ?s = last (takeWhile name_char ?s @ [NL])" unfolding d by simp
    then have "last ?s = NL" by simp
    then have "is_space (last ?s)" by (simp add: is_space_def)
    with strip_ends [of x] ne show ?thesis by simp
  qed
qed

lemma load_slot_Some:
  assumes "load_slot k e = Some t"
  shows "\<exists>d. e = Some (CSlot d) \<and> slot_enabled d"
proof (cases e)
  case None
  with assms show ?thesis by (simp add: load_slot_def)
next
  case (Some c)
  show ?thesis
  proof (cases c)
    case (CSlot d)
    with assms Some have "slot_enabled d"
      by (auto simp: load_slot_def slot_enabled_def Let_def split: if_splits)
    with Some CSlot show ?thesis by simp
  next
    case CNoDict
    with assms Some show ?thesis by (simp add: load_slot_def)
  qed
qed

lemma load_slot_wf:
  assumes "load_slot k e = Some t"
  shows "tag_wf t \<and> position t \<in> set recognized_positions \<and> content t \<noteq> []"
proof -
  from load_slot_Some [OF assms] obtain d where e: "e = Some (CSlot d)" and en: "slot_enabled d"
    by blast
  from assms have l: "load_slot k (Some (CSlot d)) = Some t" unfolding e .
  have nm: "slot_name d \<noteq> []" and pm: "TAG_NAME_PATTERN_match (slot_name d)"
    and ct: "slot_content d \<noteq> []"
    using l unfolding load_slot_enabled [OF en] by (auto split: if_splits)
  have t: "t = \<lparr>slot = k, tag_name = slot_name d, content = slot_content d,
                 position = (if slot_position d \<notin> set recognized_positions
                             then ''user_message_after'' else slot_position d),
                 header = [LT] @ slot_name d @ [GT],
                 footer = [LT, SLASH] @ slot_name d @ [GT]\<rparr>"
    using l nm pm ct unfolding load_slot_enabled [OF en] by simp
  from pm have "list_all name_char (slot_name d)"
    unfolding slot_name_def by (rule name_match_stripped)
  with nm have "tag_wf t" unfolding t tag_wf_def by simp
  moreover have "position t \<in> set recognized_positions"
    unfolding t by (simp add: recognized_positions_def)
  moreover have "content t \<noteq> []" unfolding t using ct by simp
  ultimately show ?thesis by blast
qed

text \<open>
  A dict entry whose content is neither a string nor a list reaches no \<open>append\<close> in
  the loop over the history and is lost, uncounted.
\<close>

lemma dict_with_other_content_lost:
  "clean_contexts t [PDict [(''role'', PStr ''assistant''), (''content'', PNone)]] = ([], 0)"
  by (simp add: clean_msg_def)

end
